theory Spec2Isabelle
  imports Main "HOL-Library.AList"
begin

section \<open>JavaScript values the sources rely on\<close>

text \<open>
  A JavaScript string is modelled by \<^typ>\<open>string\<close>; one \<^typ>\<open>char\<close> stands for one
  UTF-16 code unit below 256 (the Latin-1 range), which is where the character classes
  below agree with the regular expressions and string methods of the sources.
\<close>

definition isSpace :: "char \<Rightarrow> bool" where
  \<comment> \<open>the class \<open>\s\<close>, and what \<open>trim\<close> strips: TAB, LF, VT, FF, CR, SPACE, NBSP\<close>
  "isSpace c = ((of_char c :: nat) \<in> {9, 10, 11, 12, 13, 32, 160})"

definition lowerChar :: "char \<Rightarrow> char" where
  "lowerChar c =
     (let n = (of_char c :: nat)
      in if (65 \<le> n \<and> n \<le> 90) \<or> (192 \<le> n \<and> n \<le> 222 \<and> n \<noteq> 215)
         then char_of (n + 32) else c)"

definition toLowerCase :: "string \<Rightarrow> string" where
  "toLowerCase s = map lowerChar s"

definition trim :: "string \<Rightarrow> string" where
  "trim s = rev (dropWhile isSpace (rev (dropWhile isSpace s)))"

definition endsWith :: "string \<Rightarrow> string \<Rightarrow> bool" where
  "endsWith s suffix = (length suffix \<le> length s \<and> drop (length s - length suffix) s = suffix)"

text \<open>A non-negative integer as a string, in a template literal or through \<open>String\<close>:
  its decimal digits.\<close>

fun showNat :: "nat \<Rightarrow> string" where
  "showNat n =
     (if n < 10 then [char_of (48 + n)]
      else showNat (n div 10) @ [char_of (48 + n mod 10)])"

text \<open>What a call of the \<open>node:fs\<close> module or of \<open>JSON.parse\<close> throws, and \<open>new Error(msg)\<close>.\<close>

datatype js_error = ENOENT string | SyntaxError | Error string

section \<open>The file system\<close>

text \<open>
  A directory is the list of its entries, file name and content, in the order
  \<open>readdirSync\<close> reports them. Reading or unlinking a name that is not there throws
  \<open>ENOENT\<close>; every other call on the directory succeeds. \<open>mkdirSync\<close> with
  \<open>recursive: true\<close> leaves an existing directory as it is. The content of a file is a
  text, a \<^typ>\<open>string\<close> wherever a store is run on an example; its type \<open>'c\<close> is left
  open, for the functions that only hand it to \<open>JSON.parse\<close> or take it from
  \<open>JSON.stringify\<close>.
\<close>

type_synonym 'c dir = "(string \<times> 'c) list"

definition existsSync :: "'c dir \<Rightarrow> string \<Rightarrow> bool" where
  "existsSync d f = (map_of d f \<noteq> None)"

definition readFileSync :: "'c dir \<Rightarrow> string \<Rightarrow> js_error + 'c" where
  "readFileSync d f = (case map_of d f of None \<Rightarrow> Inl (ENOENT f) | Some raw \<Rightarrow> Inr raw)"

definition writeFileSync :: "'c dir \<Rightarrow> string \<Rightarrow> 'c \<Rightarrow> js_error + 'c dir" where
  "writeFileSync d f raw = Inr (AList.update f raw d)"

definition unlinkSync :: "'c dir \<Rightarrow> string \<Rightarrow> js_error + 'c dir" where
  "unlinkSync d f = (if existsSync d f then Inr (AList.delete f d) else Inl (ENOENT f))"

definition readdirSync :: "'c dir \<Rightarrow> js_error + string list" where
  "readdirSync d = Inr (map fst d)"

section \<open>cron-store.ts\<close>

datatype BackendType = claude | codex

record CronJob =
  job_id :: string
  job_name :: string
  prompt :: string
  schedule :: string
  recurring :: bool
  backendType :: BackendType
  model :: string
  cwd :: string
  envSlug :: "string option"
  enabled :: bool
  permissionMode :: string
  codexInternetAccess :: "bool option"
  createdAt :: int
  updatedAt :: int
  lastRunAt :: "int option"
  lastSessionId :: "string option"
  consecutiveFailures :: int
  totalRuns :: int

text \<open>
  \<open>Partial<CronJob>\<close>: \<open>None\<close> is a key the payload does not have. For the four fields
  that are optional in \<open>CronJob\<close> itself, \<open>Some None\<close> is the key present with the
  value \<open>undefined\<close>.
\<close>

record CronJobUpdates =
  upd_id :: "string option"
  upd_name :: "string option"
  upd_prompt :: "string option"
  upd_schedule :: "string option"
  upd_recurring :: "bool option"
  upd_backendType :: "BackendType option"
  upd_model :: "string option"
  upd_cwd :: "string option"
  upd_envSlug :: "string option option"
  upd_enabled :: "bool option"
  upd_permissionMode :: "string option"
  upd_codexInternetAccess :: "bool option option"
  upd_createdAt :: "int option"
  upd_updatedAt :: "int option"
  upd_lastRunAt :: "int option option"
  upd_lastSessionId :: "string option option"
  upd_consecutiveFailures :: "int option"
  upd_totalRuns :: "int option"

text \<open>The file of job \<open>id\<close>, relative to \<open>CRON_DIR\<close>.\<close>

definition filePath :: "string \<Rightarrow> string" where
  "filePath ident = ident @ ''.json''"

text \<open>\<open>.replace(/\s+/g, "-")\<close>: every maximal run of white space becomes one hyphen.\<close>

fun replaceSpaces :: "string \<Rightarrow> string" where
  "replaceSpaces [] = []"
| "replaceSpaces [c] = [if isSpace c then CHR ''-'' else c]"
| "replaceSpaces (c # d # cs) =
     (if isSpace c \<and> isSpace d then replaceSpaces (d # cs)
      else (if isSpace c then CHR ''-'' else c) # replaceSpaces (d # cs))"

text \<open>\<open>.replace(/[^a-z0-9-]/g, "")\<close> keeps exactly these characters.\<close>

definition isSlugChar :: "char \<Rightarrow> bool" where
  "isSlugChar c =
     (let n = (of_char c :: nat)
      in (97 \<le> n \<and> n \<le> 122) \<or> (48 \<le> n \<and> n \<le> 57) \<or> c = CHR ''-'')"

text \<open>\<open>.replace(/-+/g, "-")\<close>: every run of hyphens becomes one hyphen.\<close>

fun collapseHyphens :: "string \<Rightarrow> string" where
  "collapseHyphens [] = []"
| "collapseHyphens [c] = [c]"
| "collapseHyphens (c # d # cs) =
     (if c = CHR ''-'' \<and> d = CHR ''-'' then collapseHyphens (d # cs)
      else c # collapseHyphens (d # cs))"

text \<open>\<open>.replace(/^-|-$/g, "")\<close>: one hyphen off the front, then one off the end.\<close>

definition stripHyphens :: "string \<Rightarrow> string" where
  "stripHyphens s =
     (let s1 = (case s of [] \<Rightarrow> [] | c # cs \<Rightarrow> if c = CHR ''-'' then cs else s)
      in if s1 \<noteq> [] \<and> last s1 = CHR ''-'' then butlast s1 else s1)"

definition slugify :: "string \<Rightarrow> string" where
  "slugify name =
     stripHyphens (collapseHyphens (filter isSlugChar (replaceSpaces (toLowerCase name))))"

text \<open>
  \<open>JSON.stringify\<close> and \<open>JSON.parse\<close> belong to the JavaScript runtime; the store's
  functions take them as the parameters \<open>stringify\<close> and \<open>parse\<close>, and a text that
  \<open>JSON.parse\<close> rejects is \<open>parse raw = None\<close>.
\<close>

definition getJob :: "('c \<Rightarrow> CronJob option) \<Rightarrow> 'c dir \<Rightarrow> string \<Rightarrow> CronJob option" where
  "getJob parse d ident =
     (case readFileSync d (filePath ident) of
        Inl _ \<Rightarrow> None
      | Inr raw \<Rightarrow> parse raw)"

text \<open>\<open>{ ...existing, ...updates }\<close>: every key the payload has replaces the job's.\<close>

definition spread :: "'a \<Rightarrow> 'a option \<Rightarrow> 'a" where
  "spread old new = (case new of None \<Rightarrow> old | Some v \<Rightarrow> v)"

definition spreadUpdates :: "CronJob \<Rightarrow> CronJobUpdates \<Rightarrow> CronJob" where
  "spreadUpdates existing updates =
     \<lparr> job_id = spread (job_id existing) (upd_id updates),
       job_name = spread (job_name existing) (upd_name updates),
       prompt = spread (prompt existing) (upd_prompt updates),
       schedule = spread (schedule existing) (upd_schedule updates),
       recurring = spread (recurring existing) (upd_recurring updates),
       backendType = spread (backendType existing) (upd_backendType updates),
       model = spread (model existing) (upd_model updates),
       cwd = spread (cwd existing) (upd_cwd updates),
       envSlug = spread (envSlug existing) (upd_envSlug updates),
       enabled = spread (enabled existing) (upd_enabled updates),
       permissionMode = spread (permissionMode existing) (upd_permissionMode updates),
       codexInternetAccess =
         spread (codexInternetAccess existing) (upd_codexInternetAccess updates),
       createdAt = spread (createdAt existing) (upd_createdAt updates),
       updatedAt = spread (updatedAt existing) (upd_updatedAt updates),
       lastRunAt = spread (lastRunAt existing) (upd_lastRunAt updates),
       lastSessionId = spread (lastSessionId existing) (upd_lastSessionId updates),
       consecutiveFailures =
         spread (consecutiveFailures existing) (upd_consecutiveFailures updates),
       totalRuns = spread (totalRuns existing) (upd_totalRuns updates) \<rparr>"

text \<open>\<open>updates.name?.trim() || existing.name\<close>\<close>

definition newNameOf :: "CronJob \<Rightarrow> CronJobUpdates \<Rightarrow> string" where
  "newNameOf existing updates =
     (case upd_name updates of
        None \<Rightarrow> job_name existing
      | Some n \<Rightarrow> if trim n = [] then job_name existing else trim n)"

text \<open>
  \<open>updateJob\<close> at time \<open>now\<close> (\<open>Date.now()\<close>). \<open>Inl\<close> is a thrown error, which leaves
  the directory as it was; \<open>Inr (None, d)\<close> is the result \<open>null\<close>.
\<close>

definition updateJob ::
  "(CronJob \<Rightarrow> 'c) \<Rightarrow> ('c \<Rightarrow> CronJob option) \<Rightarrow> int \<Rightarrow> 'c dir \<Rightarrow> string \<Rightarrow>
     CronJobUpdates \<Rightarrow> js_error + (CronJob option \<times> 'c dir)" where
  "updateJob stringify parse now d ident updates =
     (case getJob parse d ident of
        None \<Rightarrow> Inr (None, d)
      | Some existing \<Rightarrow>
          let newName = newNameOf existing updates;
              newId = slugify newName
          in if newId = [] then Inl (Error ''Job name must contain alphanumeric characters'')
             else if newId \<noteq> ident \<and> existsSync d (filePath newId)
             then Inl (Error (''A job with a similar name already exists (\"'' @ newId @ ''\")''))
             else
               let job = (spreadUpdates existing updates)
                           \<lparr> job_id := newId, job_name := newName, updatedAt := now,
                             createdAt := createdAt existing \<rparr>;
                   d1 = (if newId \<noteq> ident
                         then (case unlinkSync d (filePath ident) of
                                 Inl _ \<Rightarrow> d
                               | Inr d' \<Rightarrow> d')
                         else d)
               in (case writeFileSync d1 (filePath newId) (stringify job) of
                     Inl e \<Rightarrow> Inl e
                   | Inr d2 \<Rightarrow> Inr (Some job, d2)))"


text \<open>\<open>CronJobCreateInput\<close>: a \<open>CronJob\<close> without the fields that \<open>createJob\<close> fills in.\<close>

record CronJobCreateInput =
  in_name :: string
  in_prompt :: string
  in_schedule :: string
  in_recurring :: bool
  in_backendType :: BackendType
  in_model :: string
  in_cwd :: string
  in_envSlug :: "string option"
  in_enabled :: bool
  in_permissionMode :: string
  in_codexInternetAccess :: "bool option"

definition createJob ::
  "(CronJob \<Rightarrow> 'c) \<Rightarrow> int \<Rightarrow> 'c dir \<Rightarrow> CronJobCreateInput \<Rightarrow> js_error + (CronJob \<times> 'c dir)" where
  "createJob stringify now d data =
     (if trim (in_name data) = [] then Inl (Error ''Job name is required'')
      else if trim (in_prompt data) = [] then Inl (Error ''Job prompt is required'')
      else if trim (in_schedule data) = [] then Inl (Error ''Job schedule is required'')
      else if trim (in_cwd data) = [] then Inl (Error ''Job working directory is required'')
      else
        let ident = slugify (trim (in_name data))
        in if ident = [] then Inl (Error ''Job name must contain alphanumeric characters'')
           else if existsSync d (filePath ident)
           then Inl (Error (''A job with a similar name already exists (\"'' @ ident @ ''\")''))
           else
             let job =
                   \<lparr> job_id = ident, job_name = trim (in_name data),
                     prompt = trim (in_prompt data), schedule = trim (in_schedule data),
                     recurring = in_recurring data, backendType = in_backendType data,
                     model = in_model data, cwd = trim (in_cwd data),
                     envSlug = in_envSlug data, enabled = in_enabled data,
                     permissionMode = in_permissionMode data,
                     codexInternetAccess = in_codexInternetAccess data,
                     createdAt = now, updatedAt = now, lastRunAt = None,
                     lastSessionId = None, consecutiveFailures = 0, totalRuns = 0 \<rparr>
             in (case writeFileSync d (filePath ident) (stringify job) of
                   Inl e \<Rightarrow> Inl e
                 | Inr d' \<Rightarrow> Inr (job, d')))"

text \<open>A payload with no key.\<close>

definition noUpdates :: CronJobUpdates where
  "noUpdates =
     \<lparr> upd_id = None, upd_name = None, upd_prompt = None, upd_schedule = None,
       upd_recurring = None, upd_backendType = None, upd_model = None, upd_cwd = None,
       upd_envSlug = None, upd_enabled = None, upd_permissionMode = None,
       upd_codexInternetAccess = None, upd_createdAt = None, upd_updatedAt = None,
       upd_lastRunAt = None, upd_lastSessionId = None, upd_consecutiveFailures = None,
       upd_totalRuns = None \<rparr>"

text \<open>A stored job, a rename payload that also tries to set \<open>id\<close> and \<open>createdAt\<close>,
  and a toy codec, used to run \<open>updateJob\<close> on a concrete input.\<close>

definition example_job :: CronJob where
  "example_job =
     \<lparr> job_id = ''old-name'', job_name = ''Old Name'', prompt = ''Do something useful'',
       schedule = ''0 8 * * *'', recurring = True, backendType = claude,
       model = ''claude-sonnet-4-5-20250929'', cwd = ''/tmp/test-repo'', envSlug = None,
       enabled = True, permissionMode = ''bypassPermissions'', codexInternetAccess = None,
       createdAt = 1000, updatedAt = 1000, lastRunAt = None, lastSessionId = None,
       consecutiveFailures = 0, totalRuns = 0 \<rparr>"

definition example_updates :: CronJobUpdates where
  "example_updates =
     \<lparr> upd_id = Some ''hacked'', upd_name = Some ''  New Name '', upd_prompt = None,
       upd_schedule = None, upd_recurring = None, upd_backendType = None, upd_model = None,
       upd_cwd = None, upd_envSlug = None, upd_enabled = None, upd_permissionMode = None,
       upd_codexInternetAccess = None, upd_createdAt = Some 0, upd_updatedAt = None,
       upd_lastRunAt = None, upd_lastSessionId = None, upd_consecutiveFailures = None,
       upd_totalRuns = None \<rparr>"

definition example_stringify :: "CronJob \<Rightarrow> string" where
  "example_stringify j = job_id j @ ''|'' @ job_name j"

definition example_parse :: "string \<Rightarrow> CronJob option" where
  "example_parse raw = (if raw = ''old-name|Old Name'' then Some example_job else None)"

definition example_cron_dir :: "string dir" where
  "example_cron_dir = [(''old-name.json'', ''old-name|Old Name'')]"

section \<open>node:path and node:os, as codex-home.ts uses them (POSIX)\<close>

text \<open>
  The process as the module sees it: its environment variables, the home directory of
  the password database (what \<open>os.homedir()\<close> falls back to when \<open>HOME\<close> is not set)
  and the current working directory, which \<open>path.resolve\<close> reads.
\<close>

record process =
  env :: "string \<rightharpoonup> string"
  pw_dir :: string
  proc_cwd :: string

definition homedir :: "process \<Rightarrow> string" where
  "homedir p = (case env p ''HOME'' of Some h \<Rightarrow> h | None \<Rightarrow> pw_dir p)"

fun splitSlash :: "string \<Rightarrow> string list" where
  "splitSlash [] = [[]]"
| "splitSlash (c # cs) =
     (if c = CHR ''/'' then [] # splitSlash cs
      else (case splitSlash cs of [] \<Rightarrow> [[c]] | seg # segs \<Rightarrow> (c # seg) # segs))"

fun joinSlash :: "string list \<Rightarrow> string" where
  "joinSlash [] = []"
| "joinSlash [seg] = seg"
| "joinSlash (seg # seg' # segs) = seg @ ''/'' @ joinSlash (seg' # segs)"

text \<open>
  One segment of \<open>normalizeString\<close>: empty segments and \<open>.\<close> are dropped, \<open>..\<close> removes
  the segment before it, or stays when there is none to remove and the path is relative.
\<close>

definition normStep :: "bool \<Rightarrow> string list \<Rightarrow> string \<Rightarrow> string list" where
  "normStep allowAboveRoot res seg =
     (if seg = [] \<or> seg = ''.'' then res
      else if seg = ''..''
      then (if res \<noteq> [] \<and> last res \<noteq> ''..'' then butlast res
            else if allowAboveRoot then res @ [''..''] else res)
      else res @ [seg])"

definition normalizeString :: "string \<Rightarrow> bool \<Rightarrow> string" where
  "normalizeString path allowAboveRoot =
     joinSlash (foldl (normStep allowAboveRoot) [] (splitSlash path))"

definition isAbsolute :: "string \<Rightarrow> bool" where
  "isAbsolute path = (path \<noteq> [] \<and> hd path = CHR ''/'')"

definition path_normalize :: "string \<Rightarrow> string" where
  "path_normalize path =
     (if path = [] then ''.''
      else
        let trailingSeparator = (last path = CHR ''/'');
            p = normalizeString path (\<not> isAbsolute path)
        in if p = [] then (if isAbsolute path then ''/'' else if trailingSeparator then ''./'' else ''.'')
           else (if isAbsolute path then ''/'' else []) @ p @ (if trailingSeparator then ''/'' else []))"

definition path_join :: "string list \<Rightarrow> string" where
  "path_join args =
     (case filter (\<lambda>arg. arg \<noteq> []) args of
        [] \<Rightarrow> ''.''
      | parts \<Rightarrow> path_normalize (joinSlash parts))"

text \<open>
  The loop of \<open>path.resolve\<close>, from the last argument to the first and then the working
  directory, until the path built so far is absolute.
\<close>

fun resolveLoop :: "string list \<Rightarrow> string \<Rightarrow> string \<times> bool" where
  "resolveLoop [] resolvedPath = (resolvedPath, False)"
| "resolveLoop (path # paths) resolvedPath =
     (if path = [] then resolveLoop paths resolvedPath
      else if isAbsolute path then (path @ ''/'' @ resolvedPath, True)
      else resolveLoop paths (path @ ''/'' @ resolvedPath))"

definition path_resolve :: "string \<Rightarrow> string list \<Rightarrow> string" where
  "path_resolve workdir args =
     (case resolveLoop (rev args @ [workdir]) [] of
        (resolvedPath, resolvedAbsolute) \<Rightarrow>
          let p = normalizeString resolvedPath (\<not> resolvedAbsolute)
          in if resolvedAbsolute then ''/'' @ p else if p \<noteq> [] then p else ''.'')"

section \<open>codex-home.ts\<close>

text \<open>
  \<open>DEFAULT_COMPANION_CODEX_HOME\<close> is computed once, when the module is loaded, from the
  process as it is then (\<open>loaded\<close>); \<open>resolveCompanionCodexHome\<close> runs later, in the
  process as it is at the call (\<open>p\<close>). An omitted argument is \<open>None\<close>.
\<close>

definition DEFAULT_COMPANION_CODEX_HOME :: "process \<Rightarrow> string" where
  "DEFAULT_COMPANION_CODEX_HOME loaded = path_join [homedir loaded, ''.companion'', ''codex-home'']"

definition getLegacyCodexHome :: "process \<Rightarrow> string" where
  "getLegacyCodexHome p = path_join [homedir p, ''.codex'']"

definition resolveCompanionCodexHome :: "process \<Rightarrow> process \<Rightarrow> string option \<Rightarrow> string" where
  "resolveCompanionCodexHome loaded p explicitCodexHome =
     path_resolve (proc_cwd p)
       [case explicitCodexHome of
          None \<Rightarrow> DEFAULT_COMPANION_CODEX_HOME loaded
        | Some e \<Rightarrow> if e = [] then DEFAULT_COMPANION_CODEX_HOME loaded else e]"

definition resolveCompanionCodexSessionHome ::
  "process \<Rightarrow> process \<Rightarrow> string \<Rightarrow> string option \<Rightarrow> string" where
  "resolveCompanionCodexSessionHome loaded p sessionId explicitCodexHome =
     path_join [resolveCompanionCodexHome loaded p explicitCodexHome, sessionId]"

definition example_process :: process where
  "example_process =
     \<lparr> env = [''HOME'' \<mapsto> ''/home/user'', ''CODEX_HOME'' \<mapsto> ''/tmp/global-codex''],
       pw_dir = ''/home/user'', proc_cwd = ''/srv/app'' \<rparr>"

text \<open>Two predicates for stating what the path functions keep: a prefix that ends a
  directory (empty, or ending in a slash), and a segment that normalisation keeps as it is.\<close>

definition dirPrefix :: "string \<Rightarrow> bool" where
  "dirPrefix pre = (pre = [] \<or> last pre = CHR ''/'')"

definition plainSeg :: "string \<Rightarrow> bool" where
  "plainSeg seg = (seg \<noteq> [] \<and> seg \<noteq> ''.'' \<and> seg \<noteq> ''..'' \<and> CHR ''/'' \<notin> set seg)"


section \<open>session-store.ts\<close>

text \<open>
  \<open>SessionState\<close>, \<open>BrowserIncomingMessage\<close> and \<open>PermissionRequest\<close> are plain data
  objects declared elsewhere; the store never looks inside them. They are kept as the
  JavaScript values that plain data is made of. An object is the list of its own properties
  in the order in which JavaScript enumerates them. A finite number is given by what
  JavaScript writes for it in positional notation: \<open>JNum i\<close> is the number written as the
  integer \<open>i\<close>, which for the counters and sequence numbers of a session is the integer
  itself, and \<open>JFrac negative whole fraction\<close> is the number written with the digits
  \<open>fraction\<close> after the point. \<open>-0\<close>, \<open>NaN\<close> and the two infinities are the numbers that
  JSON does not write as they are. A number so large or so small that JavaScript writes
  it with an exponent is not among the values.
\<close>

datatype js_value =
    JUndefined
  | JNull
  | JBool bool
  | JNum int
  | JFrac bool int string
  | JNegZero
  | JNaN
  | JInfinity
  | JNegInfinity
  | JStr string
  | JArr "js_value list"
  | JObj "(string \<times> js_value) list"

record BufferedBrowserEvent =
  seq :: int
  message :: js_value

text \<open>\<open>PersistedSession\<close>; an optional field that is absent is \<open>None\<close>.\<close>

record PersistedSession =
  sess_id :: string
  state :: js_value
  messageHistory :: "js_value list"
  pendingMessages :: "string list"
  pendingPermissions :: "(string \<times> js_value) list"
  eventBuffer :: "BufferedBrowserEvent list option"
  nextEventSeq :: "int option"
  lastAckSeq :: "int option"
  processedClientMessageIds :: "string list option"
  archived :: "bool option"

text \<open>
  The store and the part of the runtime it lives in. \<open>files\<close> is the directory
  \<open>this.dir\<close>. \<open>timers\<close> are the pending timeouts of the event loop in the order they
  were set: handle, time at which the timeout is due (ms), and the session that the
  callback of \<open>save\<close> has captured. \<open>clock\<close> is the time in ms. \<open>writeLog\<close> records
  every completed \<open>writeFileSync\<close> of \<open>saveSync\<close>, oldest first: file and text.
\<close>

record SessionStore =
  files :: "string dir"
  debounceTimers :: "string \<rightharpoonup> nat"
  timers :: "(nat \<times> nat \<times> PersistedSession) list"
  nextTimer :: nat
  clock :: nat
  writeLog :: "(string \<times> string) list"

text \<open>The constructor, on the content of the directory and the time it finds.\<close>

definition newSessionStore :: "string dir \<Rightarrow> nat \<Rightarrow> SessionStore" where
  "newSessionStore d now =
     \<lparr> files = d, debounceTimers = Map.empty, timers = [], nextTimer = 0, clock = now,
       writeLog = [] \<rparr>"

text \<open>The private \<open>filePath(sessionId)\<close>, relative to \<open>this.dir\<close>.\<close>

definition sessionFilePath :: "string \<Rightarrow> string" where
  "sessionFilePath sessionId = sessionId @ ''.json''"

text \<open>A \<open>try\<close> block with its \<open>catch\<close>: \<open>Inl\<close> is a throw.\<close>

definition tryCatch :: "js_error + 'a \<Rightarrow> (js_error \<Rightarrow> js_error + 'a) \<Rightarrow> js_error + 'a" where
  "tryCatch body handler = (case body of Inl e \<Rightarrow> handler e | Inr v \<Rightarrow> Inr v)"

text \<open>\<open>JSON.parse\<close> as a call that throws \<open>SyntaxError\<close> on a text it rejects.\<close>

definition JSON_parse :: "(string \<Rightarrow> 'a option) \<Rightarrow> string \<Rightarrow> js_error + 'a" where
  "JSON_parse parse raw = (case parse raw of None \<Rightarrow> Inl SyntaxError | Some v \<Rightarrow> Inr v)"

definition saveSync ::
  "(PersistedSession \<Rightarrow> string) \<Rightarrow> SessionStore \<Rightarrow> PersistedSession \<Rightarrow> SessionStore" where
  "saveSync stringify st session =
     (case writeFileSync (files st) (sessionFilePath (sess_id session)) (stringify session) of
        Inl err \<Rightarrow> st
      | Inr d \<Rightarrow>
          st\<lparr> files := d,
              writeLog := writeLog st @
                [(sessionFilePath (sess_id session), stringify session)] \<rparr>)"

definition clearTimeout :: "nat \<Rightarrow> SessionStore \<Rightarrow> SessionStore" where
  "clearTimeout timer st = st\<lparr> timers := filter (\<lambda>t. fst t \<noteq> timer) (timers st) \<rparr>"

text \<open>\<open>setTimeout(callback, delay)\<close>, for the callback that \<open>save\<close> builds around
  \<open>session\<close>: the new handle and the runtime with the timeout pending.\<close>

definition setTimeout :: "PersistedSession \<Rightarrow> nat \<Rightarrow> SessionStore \<Rightarrow> nat \<times> SessionStore" where
  "setTimeout session delay st =
     (nextTimer st,
      st\<lparr> timers := timers st @ [(nextTimer st, clock st + delay, session)],
          nextTimer := Suc (nextTimer st) \<rparr>)"

definition save :: "SessionStore \<Rightarrow> PersistedSession \<Rightarrow> SessionStore" where
  "save st session =
     (let st1 = (case debounceTimers st (sess_id session) of
                   Some existing \<Rightarrow> clearTimeout existing st
                 | None \<Rightarrow> st);
          (timer, st2) = setTimeout session 150 st1
      in st2\<lparr> debounceTimers := (debounceTimers st2)(sess_id session \<mapsto> timer) \<rparr>)"

text \<open>The callback that \<open>save\<close> hands to \<open>setTimeout\<close>.\<close>

definition saveCallback ::
  "(PersistedSession \<Rightarrow> string) \<Rightarrow> PersistedSession \<Rightarrow> SessionStore \<Rightarrow> SessionStore" where
  "saveCallback stringify session st =
     saveSync stringify
       (st\<lparr> debounceTimers := (debounceTimers st)(sess_id session := None) \<rparr>) session"

definition load ::
  "(string \<Rightarrow> PersistedSession option) \<Rightarrow> SessionStore \<Rightarrow> string \<Rightarrow>
     js_error + PersistedSession option" where
  "load parse st sessionId =
     tryCatch
       (case readFileSync (files st) (sessionFilePath sessionId) of
          Inl e \<Rightarrow> Inl e
        | Inr raw \<Rightarrow>
            (case JSON_parse parse raw of
               Inl e \<Rightarrow> Inl e
             | Inr session \<Rightarrow> Inr (Some session)))
       (\<lambda>_. Inr None)"

text \<open>One round of the \<open>for\<close> loop of \<open>loadAll\<close>, with its own \<open>try\<close>.\<close>

definition loadAllStep ::
  "(string \<Rightarrow> PersistedSession option) \<Rightarrow> string dir \<Rightarrow> PersistedSession list \<Rightarrow>
     string \<Rightarrow> PersistedSession list" where
  "loadAllStep parse d sessions file =
     (case tryCatch
             (case readFileSync d file of
                Inl e \<Rightarrow> Inl e
              | Inr raw \<Rightarrow>
                  (case JSON_parse parse raw of
                     Inl e \<Rightarrow> Inl e
                   | Inr session \<Rightarrow> Inr (sessions @ [session])))
             (\<lambda>_. Inr sessions) of
        Inl _ \<Rightarrow> sessions
      | Inr sessions' \<Rightarrow> sessions')"

definition loadAll ::
  "(string \<Rightarrow> PersistedSession option) \<Rightarrow> SessionStore \<Rightarrow> js_error + PersistedSession list" where
  "loadAll parse st =
     tryCatch
       (case readdirSync (files st) of
          Inl e \<Rightarrow> Inl e
        | Inr names \<Rightarrow>
            Inr (foldl (loadAllStep parse (files st)) []
                   (filter (\<lambda>f. endsWith f ''.json'' \<and> f \<noteq> ''launcher.json'') names)))
       (\<lambda>_. Inr [])"

definition setArchived ::
  "(PersistedSession \<Rightarrow> string) \<Rightarrow> (string \<Rightarrow> PersistedSession option) \<Rightarrow> SessionStore \<Rightarrow>
     string \<Rightarrow> bool \<Rightarrow> bool \<times> SessionStore" where
  "setArchived stringify parse st sessionId a =
     (case load parse st sessionId of
        Inr (Some session) \<Rightarrow> (True, saveSync stringify st (session\<lparr> archived := Some a \<rparr>))
      | _ \<Rightarrow> (False, st))"

definition remove :: "SessionStore \<Rightarrow> string \<Rightarrow> SessionStore" where
  "remove st sessionId =
     (let st1 = (case debounceTimers st sessionId of
                   Some timer \<Rightarrow>
                     (clearTimeout timer st)
                       \<lparr> debounceTimers := (debounceTimers st)(sessionId := None) \<rparr>
                 | None \<Rightarrow> st)
      in case unlinkSync (files st1) (sessionFilePath sessionId) of
           Inl _ \<Rightarrow> st1
         | Inr d \<Rightarrow> st1\<lparr> files := d \<rparr>)"

subsection \<open>The passing of time\<close>

text \<open>
  A timeout that is still pending when it comes due leaves the queue and its callback
  runs. When the clock advances by \<open>ms\<close>, the timeouts due by then fire in the order of
  their due times, and in the order they were set where these are equal.
\<close>

definition fireTimer ::
  "(PersistedSession \<Rightarrow> string) \<Rightarrow> nat \<times> nat \<times> PersistedSession \<Rightarrow> SessionStore \<Rightarrow>
     SessionStore" where
  "fireTimer stringify t st =
     (if t \<in> set (timers st)
      then saveCallback stringify (snd (snd t)) (clearTimeout (fst t) st)
      else st)"

definition dueTimers :: "nat \<Rightarrow> SessionStore \<Rightarrow> (nat \<times> nat \<times> PersistedSession) list" where
  "dueTimers T st = sort_key (\<lambda>t. fst (snd t)) (filter (\<lambda>t. fst (snd t) \<le> T) (timers st))"

definition advance :: "(PersistedSession \<Rightarrow> string) \<Rightarrow> nat \<Rightarrow> SessionStore \<Rightarrow> SessionStore" where
  "advance stringify ms st =
     (fold (fireTimer stringify) (dueTimers (clock st + ms) st) st) \<lparr> clock := clock st + ms \<rparr>"

text \<open>What a client of the store and the clock can do, and a run of such events.\<close>

datatype store_event =
    Save PersistedSession
  | SaveSync PersistedSession
  | Remove string
  | Advance nat

fun step :: "(PersistedSession \<Rightarrow> string) \<Rightarrow> SessionStore \<Rightarrow> store_event \<Rightarrow> SessionStore" where
  "step stringify st (Save session) = save st session"
| "step stringify st (SaveSync session) = saveSync stringify st session"
| "step stringify st (Remove sessionId) = remove st sessionId"
| "step stringify st (Advance ms) = advance stringify ms st"

definition run :: "(PersistedSession \<Rightarrow> string) \<Rightarrow> SessionStore \<Rightarrow> store_event list \<Rightarrow> SessionStore" where
  "run stringify st events = foldl (step stringify) st events"

text \<open>Whether an event hands the store a session with this id to write.\<close>

fun savesId :: "string \<Rightarrow> store_event \<Rightarrow> bool" where
  "savesId i (Save session) = (sess_id session = i)"
| "savesId i (SaveSync session) = (sess_id session = i)"
| "savesId i _ = False"

text \<open>
  A burst of \<open>save\<close> calls: the first call, then each further call after a gap in ms.
\<close>

fun burst :: "(PersistedSession \<Rightarrow> string) \<Rightarrow> SessionStore \<Rightarrow> PersistedSession \<Rightarrow>
    (nat \<times> PersistedSession) list \<Rightarrow> SessionStore" where
  "burst stringify st session [] = save st session"
| "burst stringify st session ((gap, session') # rest) =
     burst stringify (advance stringify gap (save st session)) session' rest"

text \<open>The texts written to the file of session \<open>i\<close>, oldest first, and the pending
  timeouts that hold a session with id \<open>i\<close>.\<close>

definition writesTo :: "string \<Rightarrow> SessionStore \<Rightarrow> string list" where
  "writesTo i st = map snd (filter (\<lambda>w. fst w = sessionFilePath i) (writeLog st))"

definition pendingFor ::
  "string \<Rightarrow> SessionStore \<Rightarrow> (nat \<times> nat \<times> PersistedSession) list" where
  "pendingFor i st = filter (\<lambda>t. sess_id (snd (snd t)) = i) (timers st)"

text \<open>
  What holds of the timers in every state the store reaches: handles are distinct and
  below the next one, \<open>debounceTimers\<close> knows the handle of every pending timeout
  under the id of the session it holds, and every handle in \<open>debounceTimers\<close> is the
  handle of such a pending timeout.
\<close>

definition timersOk :: "SessionStore \<Rightarrow> bool" where
  "timersOk st =
     (distinct (map fst (timers st)) \<and>
      (\<forall>t \<in> set (timers st).
         fst t < nextTimer st \<and> debounceTimers st (sess_id (snd (snd t))) = Some (fst t)) \<and>
      (\<forall>i h. debounceTimers st i = Some h \<longrightarrow>
         (\<exists>t \<in> set (timers st). fst t = h \<and> sess_id (snd (snd t)) = i)))"

text \<open>What \<open>loadAll\<close> takes from one directory entry.\<close>

definition snapshotOf ::
  "(string \<Rightarrow> PersistedSession option) \<Rightarrow> string \<times> string \<Rightarrow> PersistedSession list" where
  "snapshotOf parse entry =
     (if endsWith (fst entry) ''.json'' \<and> fst entry \<noteq> ''launcher.json''
      then (case parse (snd entry) of None \<Rightarrow> [] | Some s \<Rightarrow> [s])
      else [])"

text \<open>A session with every field set, a toy codec that knows this one session, and a
  directory with a good file, a corrupt one, the launcher's and one that is no JSON file.\<close>

definition example_session :: PersistedSession where
  "example_session =
     \<lparr> sess_id = ''s2'',
       state = JObj [(''session_id'', JStr ''s2''), (''cwd'', JStr ''/test''),
                     (''num_turns'', JNum 0), (''is_worktree'', JBool False)],
       messageHistory = [JObj [(''type'', JStr ''error''), (''message'', JStr ''test error'')]],
       pendingMessages = [''msg1'', ''msg2''],
       pendingPermissions =
         [(''req-1'', JObj [(''request_id'', JStr ''req-1''), (''tool_name'', JStr ''Write''),
                            (''input'', JObj [(''path'', JStr ''/tmp/test.txt'')])])],
       eventBuffer = Some [\<lparr> seq = 1, message = JObj [(''type'', JStr ''cli_connected'')] \<rparr>],
       nextEventSeq = Some 2,
       lastAckSeq = Some 1,
       processedClientMessageIds = Some [''client-msg-1'', ''client-msg-2''],
       archived = Some True \<rparr>"

definition example_session_stringify :: "PersistedSession \<Rightarrow> string" where
  "example_session_stringify s = sess_id s @ ''|'' @ concat (pendingMessages s)"

definition example_session_parse :: "string \<Rightarrow> PersistedSession option" where
  "example_session_parse raw = (if raw = ''s2|msg1msg2'' then Some example_session else None)"

definition example_store :: SessionStore where
  "example_store =
     newSessionStore
       [(''s2.json'', ''s2|msg1msg2''), (''bad.json'', ''not-json!''),
        (''launcher.json'', ''s2|msg1msg2''), (''notes.txt'', ''s2|msg1msg2'')] 0"

text \<open>Sessions that differ in one pending message, for a burst of \<open>save\<close> calls.\<close>

definition debounce_session :: "string \<Rightarrow> string \<Rightarrow> PersistedSession" where
  "debounce_session i msg = example_session\<lparr> sess_id := i, pendingMessages := [msg] \<rparr>"


section \<open>JSON.stringify and JSON.parse\<close>

text \<open>
  The two functions of the runtime that \<open>saveSync\<close> and \<open>load\<close> call, on the values of
  \<^typ>\<open>js_value\<close>: \<open>serialize\<close> is \<open>JSON.stringify\<close> with one argument, \<open>parseText\<close> is
  \<open>JSON.parse\<close> with one argument, \<open>None\<close> where it throws \<open>SyntaxError\<close>.
\<close>

subsection \<open>Numbers\<close>

definition isDigit :: "char \<Rightarrow> bool" where
  "isDigit c = (48 \<le> (of_char c :: nat) \<and> (of_char c :: nat) \<le> 57)"

definition readDigits :: "string \<Rightarrow> int" where
  "readDigits s = foldl (\<lambda>n c. 10 * n + ((of_char c :: int) - 48)) 0 s"

text \<open>The whole parts of the numbers that JavaScript writes in positional notation.\<close>

definition positional :: "int \<Rightarrow> bool" where
  "positional i = (\<bar>i\<bar> < 1000000000000000000000)"









text \<open>The digits after the point as JavaScript writes them, and what may follow a number
  literal that has been written in full.\<close>

definition isFraction :: "string \<Rightarrow> bool" where
  "isFraction fraction =
     (fraction \<noteq> [] \<and> list_all isDigit fraction \<and> last fraction \<noteq> CHR ''0'')"


subsection \<open>Strings\<close>








subsection \<open>Objects\<close>

text \<open>
  The own properties of an object are enumerated with the array indices first, in
  ascending order, then the other names in the order of their creation.
  \<open>CreateDataProperty\<close> sets a property, as \<open>JSON.parse\<close> does for each member of an object
  literal in turn: a name that is there keeps its place and takes the new value.
  \<open>ownKeysOrdered\<close> holds of the names of every object, in their order.
\<close>

definition isArrayIndex :: "string \<Rightarrow> bool" where
  "isArrayIndex k =
     (k \<noteq> [] \<and> list_all isDigit k \<and> (k = ''0'' \<or> hd k \<noteq> CHR ''0'') \<and>
      readDigits k < 4294967295)"



definition ownKeysOrdered :: "string list \<Rightarrow> bool" where
  "ownKeysOrdered ks =
     sorted_wrt (\<lambda>a b. a \<noteq> b \<and>
                   (isArrayIndex b \<longrightarrow> isArrayIndex a \<and> readDigits a < readDigits b)) ks"

subsection \<open>JSON.stringify\<close>




subsection \<open>JSON.parse\<close>

text \<open>
  The grammar of JSON by recursive descent. White space is SPACE, TAB, LF and CR, and may
  stand around every token. The first argument bounds the number of nested calls; every
  second call consumes a character, so that twice the length of the text is enough for
  any text, and \<open>parseText\<close> starts with that. Each function returns the value it has read
  and the text after it.
\<close>

definition isWs :: "char \<Rightarrow> bool" where
  "isWs c = (c = CHR 0x20 \<or> c = CHR 0x09 \<or> c = CHR 0x0A \<or> c = CHR 0x0D)"

definition skipWs :: "string \<Rightarrow> string" where
  "skipWs s = dropWhile isWs s"




text \<open>A text that begins with a value, or with the name of a member.\<close>

definition startsValue :: "string \<Rightarrow> bool" where
  "startsValue s = (s \<noteq> [] \<and> \<not> isWs (hd s) \<and> hd s \<noteq> CHR '']'' \<and> hd s \<noteq> CHR ''}'')"

subsection \<open>The values that JSON can represent\<close>

text \<open>
  Data that JSON writes as it is: no \<open>undefined\<close>, \<open>NaN\<close>, infinity or \<open>-0\<close> anywhere in it,
  every number one that JavaScript writes in positional notation (of magnitude below
  \<open>10\<^sup>2\<^sup>1\<close> and, with a whole part of zero, with at most five zeros after the point), and
  the properties of every object in the order of an object.
\<close>

fun plain :: "js_value \<Rightarrow> bool" where
  "plain JUndefined = False"
| "plain JNull = True"
| "plain (JBool b) = True"
| "plain (JNum i) = positional i"
| "plain (JFrac negative whole fraction) =
     (0 \<le> whole \<and> positional whole \<and> isFraction fraction \<and>
      (whole = 0 \<longrightarrow> length (takeWhile (\<lambda>c. c = CHR ''0'') fraction) \<le> 5))"
| "plain JNegZero = False"
| "plain JNaN = False"
| "plain JInfinity = False"
| "plain JNegInfinity = False"
| "plain (JStr s) = True"
| "plain (JArr xs) = list_all plain xs"
| "plain (JObj ms) = (ownKeysOrdered (map fst ms) \<and> list_all (\<lambda>p. plain (snd p)) ms)"

subsection \<open>A session as a value\<close>



















section \<open>recorder.ts: the rotation of recordings\<close>

text \<open>
  A file of the recordings directory: name, bytes and modification time (\<open>mtimeMs\<close>).
  The directory is the list of its files in the order \<open>readdirSync\<close> reports them;
  reading, \<open>statSync\<close> and \<open>unlinkSync\<close> throw \<open>ENOENT\<close> for a name that is not there.
\<close>

record recfile =
  rf_name :: string
  rf_content :: string
  rf_mtimeMs :: int

type_synonym recdir = "recfile list"

definition rec_readdirSync :: "recdir \<Rightarrow> js_error + string list" where
  "rec_readdirSync d = Inr (map rf_name d)"

definition rec_readFileSync :: "recdir \<Rightarrow> string \<Rightarrow> js_error + string" where
  "rec_readFileSync d f =
     (case find (\<lambda>e. rf_name e = f) d of None \<Rightarrow> Inl (ENOENT f) | Some e \<Rightarrow> Inr (rf_content e))"

definition rec_statSync :: "recdir \<Rightarrow> string \<Rightarrow> js_error + int" where
  "rec_statSync d f =
     (case find (\<lambda>e. rf_name e = f) d of None \<Rightarrow> Inl (ENOENT f) | Some e \<Rightarrow> Inr (rf_mtimeMs e))"

definition rec_unlinkSync :: "recdir \<Rightarrow> string \<Rightarrow> js_error + recdir" where
  "rec_unlinkSync d f =
     (case find (\<lambda>e. rf_name e = f) d of
        None \<Rightarrow> Inl (ENOENT f)
      | Some _ \<Rightarrow> Inr (filter (\<lambda>e. rf_name e \<noteq> f) d))"

record SessionRecorder =
  rec_filePath :: string
  rec_closed :: bool
  lineCount :: nat

text \<open>
  The manager: its fields, and \<open>recFiles\<close>, what the directory \<open>recordingsDir\<close> holds.
  \<open>recorders\<close> is the \<open>Map\<close> from session id to the open recorder.
\<close>

record RecorderManager =
  globalEnabled :: bool
  recordingsDir :: string
  maxLines :: int
  recorders :: "(string \<times> SessionRecorder) list"
  dirCreated :: bool
  recFiles :: recdir

definition ensureDir :: "RecorderManager \<Rightarrow> RecorderManager" where
  "ensureDir m = (if dirCreated m then m else m\<lparr> dirCreated := True \<rparr>)"

text \<open>\<open>countFileLines\<close>: the number of bytes \<open>0x0A\<close>, and 0 when the file cannot be read.\<close>

definition countNewlines :: "string \<Rightarrow> int" where
  "countNewlines buf = int (length (filter (\<lambda>c. c = CHR 0x0A) buf))"

definition countFileLines :: "recdir \<Rightarrow> string \<Rightarrow> int" where
  "countFileLines d f =
     (case rec_readFileSync d f of Inl _ \<Rightarrow> 0 | Inr buf \<Rightarrow> countNewlines buf)"

record cleanup_entry =
  ce_filename :: string
  ce_path :: string
  ce_lines :: int
  ce_mtimeMs :: int

text \<open>One round of the first loop of \<open>cleanup\<close>: a file whose \<open>statSync\<close> throws is left
  out of \<open>entries\<close> and of \<open>totalLines\<close>.\<close>

definition collectStep ::
  "string \<Rightarrow> recdir \<Rightarrow> cleanup_entry list \<times> int \<Rightarrow> string \<Rightarrow> cleanup_entry list \<times> int" where
  "collectStep dirPath d acc filename =
     (let fullPath = path_join [dirPath, filename];
          lines = countFileLines d filename
      in case rec_statSync d filename of
           Inl _ \<Rightarrow> acc
         | Inr mtimeMs \<Rightarrow>
             (fst acc @ [\<lparr> ce_filename = filename, ce_path = fullPath, ce_lines = lines,
                           ce_mtimeMs = mtimeMs \<rparr>],
              snd acc + lines))"

text \<open>The second loop, over the sorted entries; the state is \<open>totalLines\<close>, \<open>deleted\<close> and
  the directory. The loop ends at the first entry it meets with the total at or under
  the limit.\<close>

fun deleteLoop ::
  "int \<Rightarrow> string list \<Rightarrow> cleanup_entry list \<Rightarrow> int \<times> nat \<times> recdir \<Rightarrow> int \<times> nat \<times> recdir" where
  "deleteLoop limit activeFiles [] acc = acc"
| "deleteLoop limit activeFiles (entry # entries) (totalLines, deleted, d) =
     (if totalLines \<le> limit then (totalLines, deleted, d)
      else if ce_path entry \<in> set activeFiles
      then deleteLoop limit activeFiles entries (totalLines, deleted, d)
      else (case rec_unlinkSync d (ce_filename entry) of
              Inl _ \<Rightarrow> deleteLoop limit activeFiles entries (totalLines, deleted, d)
            | Inr d' \<Rightarrow>
                deleteLoop limit activeFiles entries
                  (totalLines - ce_lines entry, Suc deleted, d')))"

text \<open>\<open>cleanup\<close>: the number it returns and the manager afterwards. \<open>sort\<close> with the
  comparator \<open>a.mtimeMs - b.mtimeMs\<close> is stable.\<close>

definition cleanup :: "RecorderManager \<Rightarrow> nat \<times> RecorderManager" where
  "cleanup m0 =
     (let m = ensureDir m0
      in case rec_readdirSync (recFiles m) of
           Inl _ \<Rightarrow> (0, m)
         | Inr names \<Rightarrow>
             let files = filter (\<lambda>f. endsWith f ''.jsonl'') names
             in if files = [] then (0, m)
                else
                  let activeFiles = map (\<lambda>r. rec_filePath (snd r)) (recorders m);
                      collected = foldl (collectStep (recordingsDir m) (recFiles m)) ([], 0) files;
                      entries = fst collected;
                      totalLines = snd collected
                  in if totalLines \<le> maxLines m then (0, m)
                     else
                       (case deleteLoop (maxLines m) activeFiles
                               (sort_key ce_mtimeMs entries) (totalLines, 0, recFiles m) of
                          (_, deleted, d') \<Rightarrow> (deleted, m\<lparr> recFiles := d' \<rparr>)))"

subsection \<open>What the rotation is measured against\<close>

definition jsonlFiles :: "RecorderManager \<Rightarrow> recfile list" where
  "jsonlFiles m = filter (\<lambda>e. endsWith (rf_name e) ''.jsonl'') (recFiles m)"

definition fileLines :: "recfile \<Rightarrow> int" where
  "fileLines e = countNewlines (rf_content e)"

definition linesOf :: "recfile list \<Rightarrow> int" where
  "linesOf es = sum_list (map fileLines es)"

definition totalLinesOf :: "RecorderManager \<Rightarrow> int" where
  "totalLinesOf m = linesOf (jsonlFiles m)"

text \<open>A file is active when an open recorder writes to its path.\<close>

definition isActive :: "RecorderManager \<Rightarrow> recfile \<Rightarrow> bool" where
  "isActive m e =
     (path_join [recordingsDir m, rf_name e] \<in> set (map (\<lambda>r. rec_filePath (snd r)) (recorders m)))"

text \<open>The files that \<open>cleanup\<close> may delete, oldest first.\<close>

definition candidates :: "RecorderManager \<Rightarrow> recfile list" where
  "candidates m = sort_key rf_mtimeMs (filter (\<lambda>e. \<not> isActive m e) (jsonlFiles m))"

text \<open>The entry that the first loop of \<open>cleanup\<close> builds for a file of the directory.\<close>

definition entryOf :: "string \<Rightarrow> recfile \<Rightarrow> cleanup_entry" where
  "entryOf dirPath e =
     \<lparr> ce_filename = rf_name e, ce_path = path_join [dirPath, rf_name e],
       ce_lines = fileLines e, ce_mtimeMs = rf_mtimeMs e \<rparr>"

text \<open>Three recordings of eleven lines each with no open recorder, and one open recorder
  whose file alone is over the limit.\<close>

definition example_manager :: RecorderManager where
  "example_manager =
     \<lparr> globalEnabled = False, recordingsDir = ''/rec'', maxLines = 20, recorders = [],
       dirCreated = False,
       recFiles =
         [\<lparr> rf_name = ''new_claude_2025-01-03.jsonl'', rf_content = replicate 11 (CHR 0x0A),
             rf_mtimeMs = 3000 \<rparr>,
          \<lparr> rf_name = ''old_claude_2025-01-01.jsonl'', rf_content = replicate 11 (CHR 0x0A),
             rf_mtimeMs = 1000 \<rparr>,
          \<lparr> rf_name = ''mid_claude_2025-01-02.jsonl'', rf_content = replicate 11 (CHR 0x0A),
             rf_mtimeMs = 2000 \<rparr>] \<rparr>"

definition busy_manager :: RecorderManager where
  "busy_manager =
     \<lparr> globalEnabled = True, recordingsDir = ''/rec'', maxLines = 5,
       recorders =
         [(''active-sess'',
           \<lparr> rec_filePath = ''/rec/active-sess_claude_2025-01-01.jsonl'', rec_closed = False,
             lineCount = 7 \<rparr>)],
       dirCreated = True,
       recFiles =
         [\<lparr> rf_name = ''active-sess_claude_2025-01-01.jsonl'',
             rf_content = replicate 7 (CHR 0x0A), rf_mtimeMs = 1000 \<rparr>] \<rparr>"


section \<open>cron-scheduler.ts: executeJob\<close>

text \<open>
  The scheduler's collaborators. The Launcher is external: its state is of an open type
  \<open>'l\<close> and it is used through three operations, to launch a session (the result is the
  id of the new session), to ask whether a session is alive, and to learn whether a
  launched session has connected. What \<open>launch\<close> is called with:
\<close>

record LaunchOptions =
  lo_model :: string
  lo_permissionMode :: string
  lo_cwd :: string
  lo_backendType :: BackendType
  lo_codexSandbox :: "string option"
  lo_codexInternetAccess :: "bool option"

record 'l Launcher =
  launch :: "'l \<Rightarrow> LaunchOptions \<Rightarrow> string \<times> 'l"
  isAlive :: "'l \<Rightarrow> string \<Rightarrow> bool"
  hasConnected :: "'l \<Rightarrow> string \<Rightarrow> bool"

record CronJobExecution =
  ex_sessionId :: string
  ex_jobId :: string
  ex_startedAt :: int
  ex_completedAt :: "int option"
  ex_success :: "bool option"
  ex_error :: "string option"
  ex_costUsd :: "int option"

text \<open>
  The scheduler with what it acts on: the Launcher, the cron directory of the store,
  and, oldest first, the calls it has made of \<open>launch\<close> and of \<open>injectUserMessage\<close>
  (session id and message), the tags (session id, job id, job name) and display names
  it has set, and the executions it has recorded.
\<close>

record ('l, 'c) scheduler =
  sch_launcher :: 'l
  sch_cron :: "'c dir"
  sch_launches :: "LaunchOptions list"
  sch_injected :: "(string \<times> string) list"
  sch_tags :: "(string \<times> string \<times> string) list"
  sch_names :: "(string \<times> string) list"
  sch_executions :: "CronJobExecution list"

text \<open>
  Modelled from the spec: \<open>cron-scheduler.ts\<close> is not among the sources; step 3 of
  \<open>executeJob\<close> (section 4.5), the parameters of the launch. For the Codex backend,
  \<open>bypassPermissions\<close> maps to the sandbox \<open>danger-full-access\<close> and any other permission
  mode to \<open>workspace-write\<close>, and internet access is enabled unless the job sets it to
  disabled; the Claude backend receives neither parameter.
\<close>

definition launchOptionsFor :: "CronJob \<Rightarrow> LaunchOptions" where
  "launchOptionsFor job =
     \<lparr> lo_model = model job,
       lo_permissionMode = permissionMode job,
       lo_cwd = cwd job,
       lo_backendType = backendType job,
       lo_codexSandbox =
         (case backendType job of
            codex \<Rightarrow>
              Some (if permissionMode job = ''bypassPermissions'' then ''danger-full-access''
                    else ''workspace-write'')
          | claude \<Rightarrow> None),
       lo_codexInternetAccess =
         (case backendType job of
            codex \<Rightarrow> Some (codexInternetAccess job \<noteq> Some False)
          | claude \<Rightarrow> None) \<rparr>"

text \<open>
  Modelled from the spec: \<open>cron-scheduler.ts\<close> is not among the sources; step 5 of
  \<open>executeJob\<close>, the injected prompt: the tag \<open>[cron:<jobId> <jobName>]\<close>, a blank line,
  the prompt text.
\<close>

definition cronPrompt :: "CronJob \<Rightarrow> string" where
  "cronPrompt job =
     ''[cron:'' @ job_id job @ '' '' @ job_name job @ '']'' @ [CHR 0x0A, CHR 0x0A] @ prompt job"

text \<open>
  Modelled from the spec: \<open>cron-scheduler.ts\<close> is not among the sources; steps 6 and 7 of
  \<open>executeJob\<close>, what a finished firing writes to the job: a failure to connect
  increments \<open>consecutiveFailures\<close>, a success resets it to 0; either way \<open>totalRuns\<close> is
  incremented and \<open>lastRunAt\<close> and \<open>lastSessionId\<close> are set; when \<open>consecutiveFailures\<close>
  has reached 5 the job is disabled.
\<close>

definition trackingUpdates :: "CronJob \<Rightarrow> int \<Rightarrow> string \<Rightarrow> bool \<Rightarrow> CronJobUpdates" where
  "trackingUpdates job now sessionId connected =
     (let failures = (if connected then 0 else consecutiveFailures job + 1)
      in noUpdates
           \<lparr> upd_lastRunAt := Some (Some now),
             upd_lastSessionId := Some (Some sessionId),
             upd_consecutiveFailures := Some failures,
             upd_totalRuns := Some (totalRuns job + 1),
             upd_enabled := (if 5 \<le> failures then Some False else None) \<rparr>)"

text \<open>
  Modelled from the spec: \<open>cron-scheduler.ts\<close> is not among the sources; \<open>executeJob\<close>,
  steps 1 to 7 of section 4.5, at time \<open>now\<close>, reading and writing the job through
  \<open>getJob\<close> and \<open>updateJob\<close> of the store. \<open>namePrefix\<close> is the fixed
  prefix of the display name. A job that is missing or disabled, or whose last session
  the Launcher reports alive, leaves everything as it is.
\<close>

definition executeJob ::
  "'l Launcher \<Rightarrow> (CronJob \<Rightarrow> 'c) \<Rightarrow> ('c \<Rightarrow> CronJob option) \<Rightarrow> string \<Rightarrow> int \<Rightarrow>
     ('l, 'c) scheduler \<Rightarrow> string \<Rightarrow> ('l, 'c) scheduler" where
  "executeJob L stringify parse namePrefix now w jobId =
     (case getJob parse (sch_cron w) jobId of
        None \<Rightarrow> w
      | Some job \<Rightarrow>
          if \<not> enabled job then w
          else if (case lastSessionId job of
                     None \<Rightarrow> False
                   | Some previous \<Rightarrow> isAlive L (sch_launcher w) previous)
          then w
          else
            (case launch L (sch_launcher w) (launchOptionsFor job) of
               (sessionId, l') \<Rightarrow>
                 let connected = hasConnected L l' sessionId;
                     execution =
                       \<lparr> ex_sessionId = sessionId, ex_jobId = jobId, ex_startedAt = now,
                         ex_completedAt = (if connected then None else Some now),
                         ex_success = Some connected,
                         ex_error =
                           (if connected then None
                            else Some ''CLI process exited before connecting''),
                         ex_costUsd = None \<rparr>
                 in w\<lparr> sch_launcher := l',
                       sch_launches := sch_launches w @ [launchOptionsFor job],
                       sch_tags := sch_tags w @ [(sessionId, job_id job, job_name job)],
                       sch_names := sch_names w @ [(sessionId, namePrefix @ job_name job)],
                       sch_injected := sch_injected w @ [(sessionId, cronPrompt job)],
                       sch_executions := sch_executions w @ [execution],
                       sch_cron :=
                         (case updateJob stringify parse now (sch_cron w) jobId
                                 (trackingUpdates job now sessionId connected) of
                            Inl _ \<Rightarrow> sch_cron w
                          | Inr (_, d') \<Rightarrow> d') \<rparr>))"

text \<open>\<open>executeJob\<close> for one job at each of a list of times, in turn.\<close>

definition executeJobAt ::
  "'l Launcher \<Rightarrow> (CronJob \<Rightarrow> 'c) \<Rightarrow> ('c \<Rightarrow> CronJob option) \<Rightarrow> string \<Rightarrow> string \<Rightarrow>
     int list \<Rightarrow> ('l, 'c) scheduler \<Rightarrow> ('l, 'c) scheduler" where
  "executeJobAt L stringify parse namePrefix jobId nows w =
     fold (\<lambda>now w'. executeJob L stringify parse namePrefix now w' jobId) nows w"

text \<open>A Launcher none of whose sessions connect or stay alive.\<close>

definition neverConnects :: "'l Launcher \<Rightarrow> bool" where
  "neverConnects L =
     (\<forall>l opts. \<not> hasConnected L (snd (launch L l opts)) (fst (launch L l opts)) \<and>
                \<not> isAlive L (snd (launch L l opts)) (fst (launch L l opts)))"

text \<open>Modelled from the spec: the condition under which \<open>executeJob\<close> goes on to launch
  (steps 1 and 2 of the execution), and the job that steps 6 and 7 leave in the store under the
  key \<open>jobId\<close>.\<close>

definition mayRun :: "'l Launcher \<Rightarrow> 'l \<Rightarrow> CronJob \<Rightarrow> bool" where
  "mayRun L l job =
     (enabled job \<and>
      (case lastSessionId job of None \<Rightarrow> True | Some previous \<Rightarrow> \<not> isAlive L l previous))"

definition afterRun :: "string \<Rightarrow> CronJob \<Rightarrow> int \<Rightarrow> string \<Rightarrow> bool \<Rightarrow> CronJob" where
  "afterRun jobId job now sessionId connected =
     job\<lparr> job_id := jobId,
          lastRunAt := Some now,
          lastSessionId := Some sessionId,
          consecutiveFailures := (if connected then 0 else consecutiveFailures job + 1),
          totalRuns := totalRuns job + 1,
          enabled := (enabled job \<and> (connected \<or> consecutiveFailures job + 1 < 5)),
          updatedAt := now \<rparr>"

subsection \<open>The Launchers of cron-scheduler.test.ts\<close>

text \<open>
  \<open>createMockLauncher\<close>: the sessions with their states, and the count of launches.
  A launched session is \<open>connected\<close> at once. The tests of failure replace \<open>launch\<close> by
  one whose sessions are \<open>exited\<close>, with ids made from the time (\<open>ml_now\<close>).
\<close>

record MockLauncher =
  ml_sessions :: "(string \<times> string) list"
  ml_launchCount :: nat
  ml_now :: nat

definition mockLaunch :: "MockLauncher \<Rightarrow> LaunchOptions \<Rightarrow> string \<times> MockLauncher" where
  "mockLaunch l options =
     (let sessionId = ''mock-session-'' @ showNat (Suc (ml_launchCount l))
      in (sessionId,
          l\<lparr> ml_sessions := AList.update sessionId ''connected'' (ml_sessions l),
             ml_launchCount := Suc (ml_launchCount l) \<rparr>))"

definition failingLaunch :: "MockLauncher \<Rightarrow> LaunchOptions \<Rightarrow> string \<times> MockLauncher" where
  "failingLaunch l options =
     (let sessionId = ''fail-'' @ showNat (ml_now l)
      in (sessionId, l\<lparr> ml_sessions := AList.update sessionId ''exited'' (ml_sessions l) \<rparr>))"

definition mockLauncher :: "MockLauncher Launcher" where
  "mockLauncher =
     \<lparr> launch = mockLaunch,
       isAlive = (\<lambda>l ident. case map_of (ml_sessions l) ident of
                                None \<Rightarrow> False
                              | Some s \<Rightarrow> s \<noteq> ''exited''),
       hasConnected = (\<lambda>l ident. map_of (ml_sessions l) ident = Some ''connected'') \<rparr>"

definition failingLauncher :: "MockLauncher Launcher" where
  "failingLauncher = mockLauncher\<lparr> launch := failingLaunch \<rparr>"

text \<open>A store whose files hold the jobs themselves, a job made by \<open>createJob\<close> in an empty
  directory, and a scheduler around it.\<close>

definition example_input :: CronJobCreateInput where
  "example_input =
     \<lparr> in_name = ''Codex Auto'', in_prompt = ''Check PRs'', in_schedule = ''0 8 * * *'',
       in_recurring = True, in_backendType = codex, in_model = ''gpt-5.3-codex'',
       in_cwd = ''/tmp'', in_envSlug = None, in_enabled = True,
       in_permissionMode = ''bypassPermissions'', in_codexInternetAccess = None \<rparr>"

definition example_created :: "CronJob \<times> CronJob dir" where
  "example_created =
     (case createJob (\<lambda>j. j) 1000 [] example_input of
        Inr r \<Rightarrow> r
      | Inl _ \<Rightarrow> (example_job, []))"

definition example_scheduler :: "(MockLauncher, CronJob) scheduler" where
  "example_scheduler =
     \<lparr> sch_launcher = \<lparr> ml_sessions = [], ml_launchCount = 0, ml_now = 1000 \<rparr>,
       sch_cron = snd example_created,
       sch_launches = [], sch_injected = [], sch_tags = [], sch_names = [],
       sch_executions = [] \<rparr>"


section \<open>Properties of cron-store.ts\<close>

lemma filePath_inj: "filePath a = filePath b \<longleftrightarrow> a = b"
  by (simp add: filePath_def)

text \<open>
  C10. Whenever \<open>updateJob\<close> stores a job, for any stored job and any payload (also one
  that carries its own \<open>id\<close> or \<open>createdAt\<close>): the job it stores has the \<open>createdAt\<close> of
  the job that was there, its \<open>id\<close> is the slug of its resulting name, it is written
  under the key of that slug, and when the slug differs from the key it was read from,
  the old file is gone.
\<close>

theorem updateJob_keeps_createdAt_and_slug_id:
  assumes "updateJob stringify parse now d ident updates = Inr (Some job, d')"
  shows "\<exists>existing. getJob parse d ident = Some existing \<and>
           createdAt job = createdAt existing \<and>
           job_name job = newNameOf existing updates \<and>
           job_id job = slugify (job_name job) \<and>
           map_of d' (filePath (job_id job)) = Some (stringify job) \<and>
           (job_id job \<noteq> ident \<longrightarrow> map_of d' (filePath ident) = None)"
  using assms
  by (auto simp: updateJob_def Let_def writeFileSync_def unlinkSync_def existsSync_def
      AList.update_conv' AList.delete_conv' filePath_inj
      split: sum.splits option.splits if_splits)

theorem updateJob_keeps_createdAt_and_slug_id_witness:
  "updateJob example_stringify example_parse 2000 example_cron_dir ''old-name'' example_updates =
     Inr (Some (example_job\<lparr> job_id := ''new-name'', job_name := ''New Name'',
                              updatedAt := 2000 \<rparr>),
          [(''new-name.json'', ''new-name|New Name'')]) \<and>
   (\<exists>existing. getJob example_parse example_cron_dir ''old-name'' = Some existing \<and>
      createdAt (example_job\<lparr> job_id := ''new-name'', job_name := ''New Name'',
                              updatedAt := 2000 \<rparr>) = createdAt existing \<and>
      job_name (example_job\<lparr> job_id := ''new-name'', job_name := ''New Name'',
                              updatedAt := 2000 \<rparr>) = newNameOf existing example_updates \<and>
      job_id (example_job\<lparr> job_id := ''new-name'', job_name := ''New Name'',
                              updatedAt := 2000 \<rparr>) =
        slugify (job_name (example_job\<lparr> job_id := ''new-name'', job_name := ''New Name'',
                              updatedAt := 2000 \<rparr>)) \<and>
      map_of [(''new-name.json'', ''new-name|New Name'')]
        (filePath (job_id (example_job\<lparr> job_id := ''new-name'', job_name := ''New Name'',
                              updatedAt := 2000 \<rparr>))) =
        Some (example_stringify (example_job\<lparr> job_id := ''new-name'', job_name := ''New Name'',
                              updatedAt := 2000 \<rparr>)) \<and>
      (job_id (example_job\<lparr> job_id := ''new-name'', job_name := ''New Name'',
                              updatedAt := 2000 \<rparr>) \<noteq> ''old-name'' \<longrightarrow>
       map_of [(''new-name.json'', ''new-name|New Name'')] (filePath ''old-name'') = None))"
proof -
  have run:
    "updateJob example_stringify example_parse 2000 example_cron_dir ''old-name'' example_updates =
       Inr (Some (example_job\<lparr> job_id := ''new-name'', job_name := ''New Name'',
                                updatedAt := 2000 \<rparr>),
            [(''new-name.json'', ''new-name|New Name'')])"
    by code_simp
  show ?thesis
    by (rule conjI [OF run updateJob_keeps_createdAt_and_slug_id [OF run]])
qed

section \<open>Properties of codex-home.ts\<close>

lemma splitSlash_nonempty: "splitSlash s \<noteq> []"
  by (induction s) (auto split: list.splits)

lemma splitSlash_append_noslash:
  "CHR ''/'' \<notin> set b \<Longrightarrow>
   splitSlash (a @ b) = butlast (splitSlash a) @ [last (splitSlash a) @ b]"
proof (induction a)
  case Nil
  then show ?case by (induction b) (auto split: list.splits)
next
  case (Cons c a)
  then show ?case
    using splitSlash_nonempty [of a] splitSlash_nonempty [of "a @ b"]
    by (auto split: list.splits simp: butlast_append)
qed

lemma splitSlash_snoc_slash: "splitSlash (a @ ''/'') = splitSlash a @ [[]]"
  by (induction a) (auto split: list.splits simp: splitSlash_nonempty)

lemma last_splitSlash_dirPrefix: "dirPrefix pre \<Longrightarrow> last (splitSlash pre) = []"
proof (cases pre rule: rev_cases)
  case Nil then show ?thesis by simp
next
  case (snoc xs x)
  assume "dirPrefix pre"
  with snoc have "x = CHR ''/''" by (simp add: dirPrefix_def)
  with snoc show ?thesis using splitSlash_snoc_slash [of xs] by simp
qed

lemma splitSlash_dirPrefix_seg:
  "dirPrefix pre \<Longrightarrow> CHR ''/'' \<notin> set seg \<Longrightarrow>
   splitSlash (pre @ seg) = butlast (splitSlash pre) @ [seg]"
  by (simp add: splitSlash_append_noslash last_splitSlash_dirPrefix)

lemma joinSlash_snoc: "\<exists>pre. joinSlash (segs @ [seg]) = pre @ seg \<and> dirPrefix pre"
proof (induction segs rule: joinSlash.induct)
  case 1
  then show ?case by (simp add: dirPrefix_def)
next
  case (2 s)
  have "joinSlash ([s] @ [seg]) = (s @ ''/'') @ seg" by simp
  then show ?case unfolding dirPrefix_def by (metis last_snoc snoc_eq_iff_butlast append_assoc)
next
  case (3 s s' segs)
  then obtain pre where "joinSlash ((s' # segs) @ [seg]) = pre @ seg" "dirPrefix pre" by blast
  then have "joinSlash ((s # s' # segs) @ [seg]) = (s @ ''/'' @ pre) @ seg \<and> dirPrefix (s @ ''/'' @ pre)"
    by (auto simp: dirPrefix_def)
  then show ?case by blast
qed

lemma normalizeString_plain_last:
  assumes "dirPrefix pre" "plainSeg seg"
  shows "\<exists>pre'. normalizeString (pre @ seg) allow = pre' @ seg \<and> dirPrefix pre'"
proof -
  have "normalizeString (pre @ seg) allow =
    joinSlash (foldl (normStep allow) [] (butlast (splitSlash pre)) @ [seg])"
    using assms by (simp add: normalizeString_def splitSlash_dirPrefix_seg plainSeg_def normStep_def)
  then show ?thesis using joinSlash_snoc by metis
qed

lemma normalizeString_plain_last_slash:
  assumes "dirPrefix pre" "plainSeg seg"
  shows "\<exists>pre'. normalizeString (pre @ seg @ ''/'') allow = pre' @ seg \<and> dirPrefix pre'"
proof -
  have "splitSlash (pre @ seg @ ''/'') = butlast (splitSlash pre) @ [seg, []]"
    using assms splitSlash_snoc_slash [of "pre @ seg"]
    by (simp add: splitSlash_dirPrefix_seg plainSeg_def)
  then have "normalizeString (pre @ seg @ ''/'') allow =
    joinSlash (foldl (normStep allow) [] (butlast (splitSlash pre)) @ [seg])"
    using assms by (simp add: normalizeString_def plainSeg_def normStep_def)
  then show ?thesis using joinSlash_snoc by metis
qed


lemma path_normalize_plain_last:
  assumes "dirPrefix pre" "plainSeg seg"
  shows "\<exists>pre'. path_normalize (pre @ seg) = pre' @ seg \<and> dirPrefix pre'"
proof -
  define s where "s = pre @ seg"
  obtain q where q: "normalizeString s (\<not> isAbsolute s) = q @ seg" "dirPrefix q"
    using normalizeString_plain_last [OF assms] unfolding s_def by blast
  have ne: "s \<noteq> []" and nl: "last s \<noteq> CHR ''/''"
    using assms unfolding s_def by (auto simp: plainSeg_def dest: last_in_set)
  have nq: "q @ seg \<noteq> []" using assms by (simp add: plainSeg_def)
  have "path_normalize s = ((if isAbsolute s then ''/'' else []) @ q) @ seg"
    unfolding path_normalize_def Let_def q(1) using ne nl nq by simp
  moreover have "dirPrefix ((if isAbsolute s then ''/'' else []) @ q)"
    using q(2) by (auto simp: dirPrefix_def)
  ultimately show ?thesis unfolding s_def by blast
qed

lemma path_join_home_last:
  assumes "plainSeg a" "plainSeg b"
  shows "\<exists>pre. path_join [h, a, b] = pre @ b \<and> dirPrefix pre"
proof -
  have "\<exists>pre. joinSlash (filter (\<lambda>arg. arg \<noteq> []) [h, a, b]) = pre @ b \<and> dirPrefix pre
          \<and> filter (\<lambda>arg. arg \<noteq> []) [h, a, b] \<noteq> []"
    using assms joinSlash_snoc [of "filter (\<lambda>arg. arg \<noteq> []) [h, a]" b]
    by (auto simp: plainSeg_def)
  then obtain pre where pre: "joinSlash (filter (\<lambda>arg. arg \<noteq> []) [h, a, b]) = pre @ b"
    "dirPrefix pre" "filter (\<lambda>arg. arg \<noteq> []) [h, a, b] \<noteq> []" by blast
  have "path_join [h, a, b] = path_normalize (pre @ b)"
    using pre(1,3) unfolding path_join_def by (auto split: list.splits)
  then show ?thesis using path_normalize_plain_last [OF pre(2) assms(2)] by simp
qed

lemma path_join_legacy_last:
  assumes "plainSeg b"
  shows "\<exists>pre. path_join [h, b] = pre @ b \<and> dirPrefix pre"
proof -
  have "\<exists>pre. joinSlash (filter (\<lambda>arg. arg \<noteq> []) [h, b]) = pre @ b \<and> dirPrefix pre
          \<and> filter (\<lambda>arg. arg \<noteq> []) [h, b] \<noteq> []"
    using assms joinSlash_snoc [of "filter (\<lambda>arg. arg \<noteq> []) [h]" b]
    by (auto simp: plainSeg_def)
  then obtain pre where pre: "joinSlash (filter (\<lambda>arg. arg \<noteq> []) [h, b]) = pre @ b"
    "dirPrefix pre" "filter (\<lambda>arg. arg \<noteq> []) [h, b] \<noteq> []" by blast
  have "path_join [h, b] = path_normalize (pre @ b)"
    using pre(1,3) unfolding path_join_def by (auto split: list.splits)
  then show ?thesis using path_normalize_plain_last [OF pre(2) assms] by simp
qed

lemma path_resolve_plain_last:
  assumes "dirPrefix pre" "plainSeg seg"
  shows "\<exists>pre'. path_resolve workdir [pre @ seg] = pre' @ seg \<and> dirPrefix pre'"
proof -
  have ne: "pre @ seg \<noteq> []" using assms by (simp add: plainSeg_def)
  obtain pre2 ab where r: "resolveLoop [pre @ seg, workdir] [] = (pre2 @ seg @ ''/'', ab)"
    and d2: "dirPrefix pre2"
  proof (cases "isAbsolute (pre @ seg)")
    case True
    then show ?thesis using that [of pre True] ne assms(1) by simp
  next
    case False
    show ?thesis
    proof (cases "workdir = []")
      case True
      then show ?thesis using that [of pre False] ne False assms(1) by simp
    next
      case wd: False
      have "dirPrefix (workdir @ ''/'' @ pre)" using assms(1) by (auto simp: dirPrefix_def)
      then show ?thesis
        using that [of "workdir @ ''/'' @ pre" "isAbsolute workdir"] ne False wd by simp
    qed
  qed
  obtain q where q: "normalizeString (pre2 @ seg @ ''/'') (\<not> ab) = q @ seg" "dirPrefix q"
    using normalizeString_plain_last_slash [OF d2 assms(2)] by blast
  have "q @ seg \<noteq> []" using assms by (simp add: plainSeg_def)
  then have "path_resolve workdir [pre @ seg] = ((if ab then ''/'' else []) @ q) @ seg"
    using r q by (auto simp add: path_resolve_def Let_def simp del: resolveLoop.simps)
  moreover have "dirPrefix ((if ab then ''/'' else []) @ q)" using q(2) by (auto simp: dirPrefix_def)
  ultimately show ?thesis by blast
qed

lemma homedir_ignores_CODEX_HOME:
  "homedir (p\<lparr>env := (env p)(''CODEX_HOME'' := v)\<rparr>) = homedir p"
  by (simp add: homedir_def split: option.splits)


lemma splitSlash_noslash: "CHR ''/'' \<notin> set b \<Longrightarrow> splitSlash b = [b]"
  using splitSlash_append_noslash [of b "[]"] by simp

lemma splitSlash_slash_append: "splitSlash (a @ CHR ''/'' # b) = splitSlash a @ splitSlash b"
  by (induction a) (auto split: list.splits simp: splitSlash_nonempty)

lemma splitSlash_joinSlash:
  "segs \<noteq> [] \<Longrightarrow> \<forall>s\<in>set segs. CHR ''/'' \<notin> set s \<Longrightarrow> splitSlash (joinSlash segs) = segs"
proof (induction segs rule: joinSlash.induct)
  case 1
  then show ?case by simp
next
  case (2 seg)
  then show ?case by (simp add: splitSlash_noslash)
next
  case (3 seg seg' segs)
  then show ?case by (simp add: splitSlash_slash_append splitSlash_noslash)
qed

lemma splitSlash_slashfree: "\<forall>s\<in>set (splitSlash p). CHR ''/'' \<notin> set s"
  by (induction p) (auto split: list.splits)

lemma foldl_normStep_plain:
  "\<forall>s\<in>set segs. plainSeg s \<Longrightarrow> foldl (normStep al) acc segs = acc @ segs"
  by (induction segs arbitrary: acc) (auto simp: normStep_def plainSeg_def)

lemma normStep_keeps_plain:
  "\<forall>s\<in>set acc. plainSeg s \<Longrightarrow> CHR ''/'' \<notin> set seg \<Longrightarrow>
   \<forall>s\<in>set (normStep False acc seg). plainSeg s"
  by (auto simp: normStep_def plainSeg_def dest: in_set_butlastD)

lemma foldl_normStep_keeps_plain:
  "\<forall>s\<in>set acc. plainSeg s \<Longrightarrow> \<forall>s\<in>set segs. CHR ''/'' \<notin> set s \<Longrightarrow>
   \<forall>s\<in>set (foldl (normStep False) acc segs). plainSeg s"
proof (induction segs arbitrary: acc)
  case Nil
  then show ?case by simp
next
  case (Cons seg segs)
  have "\<forall>s\<in>set (normStep False acc seg). plainSeg s"
    using Cons.prems by (intro normStep_keeps_plain) auto
  then show ?case using Cons.IH Cons.prems by simp
qed

lemma path_resolve_absolute_normal:
  assumes st: "stack \<noteq> []" "\<forall>s\<in>set stack. plainSeg s"
  shows "path_resolve workdir [''/'' @ joinSlash stack] = ''/'' @ joinSlash stack"
proof -
  have sf: "\<forall>s\<in>set stack. CHR ''/'' \<notin> set s" using st(2) by (simp add: plainSeg_def)
  have "splitSlash ((''/'' @ joinSlash stack) @ ''/'') = [] # stack @ [[]]"
    unfolding splitSlash_snoc_slash using splitSlash_joinSlash [OF st(1) sf] by simp
  then have "foldl (normStep False) [] (splitSlash ((''/'' @ joinSlash stack) @ ''/'')) = stack"
    using foldl_normStep_plain [OF st(2), of False "[]"] by (simp add: normStep_def)
  then have "normalizeString ((''/'' @ joinSlash stack) @ ''/'') False = joinSlash stack"
    by (simp add: normalizeString_def)
  then show ?thesis by (simp add: path_resolve_def isAbsolute_def)
qed

lemma joinSlash_nonempty: "stack \<noteq> [] \<Longrightarrow> \<forall>s\<in>set stack. plainSeg s \<Longrightarrow> joinSlash stack \<noteq> []"
  by (induction stack rule: joinSlash.induct) (auto simp: plainSeg_def)

lemma path_normalize_absolute:
  assumes "isAbsolute s" "last s \<noteq> CHR ''/''"
    and "foldl (normStep False) [] (splitSlash s) = stack" "joinSlash stack \<noteq> []"
  shows "path_normalize s = ''/'' @ joinSlash stack"
proof -
  have "s \<noteq> []" using assms(1) by (simp add: isAbsolute_def)
  moreover have "normalizeString s False = joinSlash stack"
    using assms(3) by (simp add: normalizeString_def)
  ultimately show ?thesis
    using assms(1,2,4) by (simp add: path_normalize_def Let_def)
qed

lemma normStep_plain: "plainSeg seg \<Longrightarrow> normStep al res seg = res @ [seg]"
  by (simp add: normStep_def plainSeg_def)

lemma foldl_normStep_snoc_plain:
  "plainSeg seg \<Longrightarrow> foldl (normStep al) acc (segs @ [seg]) = foldl (normStep al) acc segs @ [seg]"
  by (simp add: normStep_plain)

lemma path_join_absolute_normal:
  assumes "isAbsolute h" "plainSeg a" "plainSeg b"
  shows "\<exists>stack. stack \<noteq> [] \<and> (\<forall>s\<in>set stack. plainSeg s) \<and>
           path_join [h, a, b] = ''/'' @ joinSlash stack"
proof -
  define pre where "pre = h @ ''/'' @ a @ ''/''"
  define stack where "stack = foldl (normStep False) [] (splitSlash (pre @ b))"
  have hne: "h \<noteq> []" using assms(1) by (simp add: isAbsolute_def)
  have ane: "a \<noteq> []" and bne: "b \<noteq> []" and bsf: "CHR ''/'' \<notin> set b"
    using assms(2,3) by (simp_all add: plainSeg_def)
  have abs: "isAbsolute (pre @ b)" using assms(1) by (simp add: isAbsolute_def pre_def)
  have "last b \<in> set b" using bne by simp
  then have "last b \<noteq> CHR ''/''" using bsf by auto
  then have nl: "last (pre @ b) \<noteq> CHR ''/''" using bne by simp
  have j: "joinSlash [h, a, b] = pre @ b" by (simp add: pre_def)
  have f: "filter (\<lambda>arg. arg \<noteq> []) [h, a, b] = [h, a, b]" using hne ane bne by simp
  have pj: "path_join [h, a, b] = path_normalize (pre @ b)"
    unfolding path_join_def f by (simp only: list.case j)
  have plain: "\<forall>s\<in>set stack. plainSeg s"
    unfolding stack_def
    by (rule foldl_normStep_keeps_plain) (simp_all add: splitSlash_slashfree)
  have dp: "dirPrefix pre" by (simp add: dirPrefix_def pre_def)
  have "stack = foldl (normStep False) [] (butlast (splitSlash pre)) @ [b]"
    unfolding stack_def splitSlash_dirPrefix_seg [OF dp bsf]
    by (rule foldl_normStep_snoc_plain [OF assms(3)])
  then have sne: "stack \<noteq> []" by simp
  have jne: "joinSlash stack \<noteq> []" by (rule joinSlash_nonempty [OF sne plain])
  have "path_normalize (pre @ b) = ''/'' @ joinSlash stack"
    by (rule path_normalize_absolute [OF abs nl stack_def [symmetric] jne])
  then have "path_join [h, a, b] = ''/'' @ joinSlash stack" unfolding pj .
  with sne plain show ?thesis by (intro exI [of _ stack] conjI)
qed

lemma resolve_default_absolute:
  assumes "isAbsolute h" "plainSeg a" "plainSeg b"
  shows "path_resolve workdir [path_join [h, a, b]] = path_join [h, a, b]"
proof -
  obtain stack where st: "stack \<noteq> []" "\<forall>s\<in>set stack. plainSeg s"
    and pj: "path_join [h, a, b] = ''/'' @ joinSlash stack"
    using path_join_absolute_normal [OF assms] by (elim exE conjE)
  show ?thesis unfolding pj by (rule path_resolve_absolute_normal [OF st])
qed

lemma plainSeg_names: "plainSeg ''.companion''" "plainSeg ''codex-home''" "plainSeg ''.codex''"
  by (simp_all add: plainSeg_def)

text \<open>
  C9. \<open>resolveCompanionCodexHome\<close> gives the same path whatever \<open>CODEX_HOME\<close> is, or
  whether it is set at all, when the module is loaded and when the function is called.
  Without an argument the path is the resolved \<open>join(homedir(), ".companion",
  "codex-home")\<close>: its last segment is \<open>codex-home\<close>, it is never the legacy home
  \<open>join(homedir(), ".codex")\<close> of any process, and for an absolute home directory it is
  \<open>DEFAULT_COMPANION_CODEX_HOME\<close> itself.
\<close>

theorem resolveCompanionCodexHome_ignores_CODEX_HOME:
  "resolveCompanionCodexHome (loaded\<lparr>env := (env loaded)(''CODEX_HOME'' := v)\<rparr>)
       (p\<lparr>env := (env p)(''CODEX_HOME'' := w)\<rparr>) explicitCodexHome =
     resolveCompanionCodexHome loaded p explicitCodexHome \<and>
   resolveCompanionCodexHome loaded p None =
     path_resolve (proc_cwd p) [path_join [homedir loaded, ''.companion'', ''codex-home'']] \<and>
   (\<exists>pre. resolveCompanionCodexHome loaded p None = pre @ ''codex-home'' \<and> dirPrefix pre) \<and>
   resolveCompanionCodexHome loaded p None \<noteq> getLegacyCodexHome q \<and>
   (isAbsolute (homedir loaded) \<longrightarrow>
      resolveCompanionCodexHome loaded p None = DEFAULT_COMPANION_CODEX_HOME loaded)"
proof -
  let ?D = "path_join [homedir loaded, ''.companion'', ''codex-home'']"
  have indep: "resolveCompanionCodexHome (loaded\<lparr>env := (env loaded)(''CODEX_HOME'' := v)\<rparr>)
       (p\<lparr>env := (env p)(''CODEX_HOME'' := w)\<rparr>) explicitCodexHome =
     resolveCompanionCodexHome loaded p explicitCodexHome"
    by (simp add: resolveCompanionCodexHome_def DEFAULT_COMPANION_CODEX_HOME_def
        homedir_ignores_CODEX_HOME split: option.splits)
  have val: "resolveCompanionCodexHome loaded p None = path_resolve (proc_cwd p) [?D]"
    by (simp add: resolveCompanionCodexHome_def DEFAULT_COMPANION_CODEX_HOME_def)
  obtain pre where pre: "?D = pre @ ''codex-home''" "dirPrefix pre"
    using path_join_home_last [OF plainSeg_names(1,2), of "homedir loaded"]
    by (elim exE conjE)
  obtain pre' where pre': "path_resolve (proc_cwd p) [pre @ ''codex-home''] = pre' @ ''codex-home''"
    "dirPrefix pre'"
    using path_resolve_plain_last [OF pre(2) plainSeg_names(2), of "proc_cwd p"]
    by (elim exE conjE)
  have res: "resolveCompanionCodexHome loaded p None = pre' @ ''codex-home''"
    unfolding val pre(1) by (rule pre'(1))
  then have suffix:
    "\<exists>pre. resolveCompanionCodexHome loaded p None = pre @ ''codex-home'' \<and> dirPrefix pre"
    using pre'(2) by (intro exI [of _ pre'] conjI)
  obtain l where l: "getLegacyCodexHome q = l @ ''.codex''"
    using path_join_legacy_last [OF plainSeg_names(3), of "homedir q"]
    unfolding getLegacyCodexHome_def by (elim exE conjE)
  have "last (resolveCompanionCodexHome loaded p None) = CHR ''e''"
    unfolding res by simp
  moreover have "last (getLegacyCodexHome q) = CHR ''x''"
    unfolding l by simp
  ultimately have
    "last (resolveCompanionCodexHome loaded p None) \<noteq> last (getLegacyCodexHome q)"
    by simp
  then have differ: "resolveCompanionCodexHome loaded p None \<noteq> getLegacyCodexHome q"
    by (rule contrapos_nn) (erule arg_cong)
  have absolute: "isAbsolute (homedir loaded) \<longrightarrow>
      resolveCompanionCodexHome loaded p None = DEFAULT_COMPANION_CODEX_HOME loaded"
    unfolding val DEFAULT_COMPANION_CODEX_HOME_def
    by (rule impI) (rule resolve_default_absolute [OF _ plainSeg_names(1,2)])
  show ?thesis by (intro conjI indep val suffix differ absolute)
qed

theorem resolveCompanionCodexHome_ignores_CODEX_HOME_witness:
  "isAbsolute (homedir example_process) \<and>
   DEFAULT_COMPANION_CODEX_HOME example_process = ''/home/user/.companion/codex-home'' \<and>
   resolveCompanionCodexHome example_process example_process None =
     DEFAULT_COMPANION_CODEX_HOME example_process \<and>
   resolveCompanionCodexHome
       (example_process\<lparr>env := (env example_process)(''CODEX_HOME'' := None)\<rparr>)
       (example_process\<lparr>env := (env example_process)(''CODEX_HOME'' := Some ''/elsewhere'')\<rparr>)
       None =
     resolveCompanionCodexHome example_process example_process None"
proof -
  note T = resolveCompanionCodexHome_ignores_CODEX_HOME
      [of example_process None example_process "Some ''/elsewhere''" None example_process]
  have a: "isAbsolute (homedir example_process)"
    by code_simp
  have d: "DEFAULT_COMPANION_CODEX_HOME example_process = ''/home/user/.companion/codex-home''"
    by code_simp
  have r: "resolveCompanionCodexHome example_process example_process None =
     DEFAULT_COMPANION_CODEX_HOME example_process"
    by (rule mp [OF T [THEN conjunct2, THEN conjunct2, THEN conjunct2, THEN conjunct2] a])
  show ?thesis
    by (intro conjI a d r T [THEN conjunct1])
qed

section \<open>Properties of session-store.ts: load, loadAll, saveSync\<close>

lemma load_cases:
  "load parse st sessionId =
     Inr (case map_of (files st) (sessionFilePath sessionId) of
            None \<Rightarrow> None
          | Some raw \<Rightarrow> parse raw)"
  by (simp add: load_def tryCatch_def readFileSync_def JSON_parse_def split: option.splits)

lemma loadAllStep_cases:
  "loadAllStep parse d sessions file =
     sessions @ (case map_of d file of
                   None \<Rightarrow> []
                 | Some raw \<Rightarrow> (case parse raw of None \<Rightarrow> [] | Some s \<Rightarrow> [s]))"
  by (simp add: loadAllStep_def tryCatch_def readFileSync_def JSON_parse_def split: option.splits)

lemma foldl_loadAllStep:
  "foldl (loadAllStep parse d) acc names =
     acc @ concat (map (\<lambda>file. case map_of d file of
                   None \<Rightarrow> []
                 | Some raw \<Rightarrow> (case parse raw of None \<Rightarrow> [] | Some s \<Rightarrow> [s])) names)"
  by (induction names arbitrary: acc) (simp_all add: loadAllStep_cases)

lemma concat_map_filter_names:
  assumes "\<forall>e \<in> set es. map_of d (fst e) = Some (snd e)"
  shows "concat (map (\<lambda>file. case map_of d file of
                   None \<Rightarrow> []
                 | Some raw \<Rightarrow> (case parse raw of None \<Rightarrow> [] | Some s \<Rightarrow> [s]))
           (filter (\<lambda>f. endsWith f ''.json'' \<and> f \<noteq> ''launcher.json'') (map fst es))) =
         concat (map (snapshotOf parse) es)"
  using assms by (induction es) (auto simp: snapshotOf_def)

lemma loadAll_entries:
  assumes "distinct (map fst (files st))"
  shows "loadAll parse st = Inr (concat (map (snapshotOf parse) (files st)))"
proof -
  have "\<forall>e \<in> set (files st). map_of (files st) (fst e) = Some (snd e)"
    using assms by auto
  then show ?thesis
    by (simp add: loadAll_def tryCatch_def readdirSync_def foldl_loadAllStep
        concat_map_filter_names)
qed

lemma set_snapshots:
  "set (concat (map (snapshotOf parse) d)) =
     {s. \<exists>f raw. (f, raw) \<in> set d \<and> endsWith f ''.json'' \<and> f \<noteq> ''launcher.json'' \<and>
           parse raw = Some s}"
  by (auto simp: snapshotOf_def split: option.splits if_splits) force

text \<open>
  C3. \<open>load\<close> never throws, and its result is \<open>null\<close> when the file of the session is
  missing and when \<open>JSON.parse\<close> rejects its text. \<open>loadAll\<close> never throws either; in a
  directory (no two entries of the same name) it returns, in directory order, what
  \<open>JSON.parse\<close> makes of each file whose name ends in \<open>.json\<close> and is not
  \<open>launcher.json\<close>, and nothing for a file that \<open>JSON.parse\<close> rejects.
\<close>

theorem load_and_loadAll_skip_bad_files:
  "(\<exists>r. load parse st sessionId = Inr r) \<and>
   (map_of (files st) (sessionFilePath sessionId) = None \<longrightarrow>
      load parse st sessionId = Inr None) \<and>
   (\<forall>raw. map_of (files st) (sessionFilePath sessionId) = Some raw \<and> parse raw = None \<longrightarrow>
      load parse st sessionId = Inr None) \<and>
   (\<exists>sessions. loadAll parse st = Inr sessions) \<and>
   (distinct (map fst (files st)) \<longrightarrow>
      loadAll parse st = Inr (concat (map (snapshotOf parse) (files st))) \<and>
      set (concat (map (snapshotOf parse) (files st))) =
        {s. \<exists>f raw. (f, raw) \<in> set (files st) \<and> endsWith f ''.json'' \<and>
              f \<noteq> ''launcher.json'' \<and> parse raw = Some s})"
proof (intro conjI impI allI)
  show "\<exists>r. load parse st sessionId = Inr r" by (simp add: load_cases)
  show "load parse st sessionId = Inr None"
    if "map_of (files st) (sessionFilePath sessionId) = None"
    using that by (simp add: load_cases)
  show "load parse st sessionId = Inr None"
    if "map_of (files st) (sessionFilePath sessionId) = Some raw \<and> parse raw = None" for raw
    using that by (simp add: load_cases)
  show "\<exists>sessions. loadAll parse st = Inr sessions"
    by (simp add: loadAll_def tryCatch_def readdirSync_def)
  show "loadAll parse st = Inr (concat (map (snapshotOf parse) (files st)))"
    if "distinct (map fst (files st))"
    using that by (rule loadAll_entries)
  show "set (concat (map (snapshotOf parse) (files st))) =
        {s. \<exists>f raw. (f, raw) \<in> set (files st) \<and> endsWith f ''.json'' \<and>
              f \<noteq> ''launcher.json'' \<and> parse raw = Some s}"
    by (rule set_snapshots)
qed

theorem load_and_loadAll_skip_bad_files_witness:
  "map_of (files example_store) (sessionFilePath ''ghost'') = None \<and>
   load example_session_parse example_store ''ghost'' = Inr None \<and>
   map_of (files example_store) (sessionFilePath ''bad'') = Some ''not-json!'' \<and>
   example_session_parse ''not-json!'' = None \<and>
   load example_session_parse example_store ''bad'' = Inr None \<and>
   distinct (map fst (files example_store)) \<and>
   concat (map (snapshotOf example_session_parse) (files example_store)) = [example_session] \<and>
   loadAll example_session_parse example_store =
     Inr (concat (map (snapshotOf example_session_parse) (files example_store)))"
proof -
  note ghost = load_and_loadAll_skip_bad_files [of example_session_parse example_store "''ghost''"]
  note bad = load_and_loadAll_skip_bad_files [of example_session_parse example_store "''bad''"]
  have g: "map_of (files example_store) (sessionFilePath ''ghost'') = None"
    by code_simp
  have b: "map_of (files example_store) (sessionFilePath ''bad'') = Some ''not-json!''"
    and p: "example_session_parse ''not-json!'' = None"
    by code_simp+
  have d: "distinct (map fst (files example_store))"
    by code_simp
  have c: "concat (map (snapshotOf example_session_parse) (files example_store)) =
      [example_session]"
    by code_simp
  have lg: "load example_session_parse example_store ''ghost'' = Inr None"
    by (rule mp [OF ghost [THEN conjunct2, THEN conjunct1] g])
  have lb: "load example_session_parse example_store ''bad'' = Inr None"
    by (rule mp [OF spec [OF bad [THEN conjunct2, THEN conjunct2, THEN conjunct1]]
          conjI [OF b p]])
  have la: "loadAll example_session_parse example_store =
     Inr (concat (map (snapshotOf example_session_parse) (files example_store)))"
    by (rule conjunct1 [OF mp [OF ghost [THEN conjunct2, THEN conjunct2, THEN conjunct2,
          THEN conjunct2] d]])
  show ?thesis by (intro conjI g lg b p lb d c la)
qed


section \<open>Properties of JSON.stringify and JSON.parse\<close>

subsection \<open>Numbers\<close>

declare showNat.simps [simp del]



lemma of_char_char_of_digit: "n < 10 \<Longrightarrow> (of_char (char_of (48 + n :: nat)) :: nat) = 48 + n"
  by simp





















subsection \<open>Strings and objects\<close>









subsection \<open>The steps of the parser\<close>

lemma skipWs_start: "startsValue s \<Longrightarrow> skipWs (s @ r) = s @ r"
  by (cases s) (simp_all add: startsValue_def skipWs_def)



















subsection \<open>A value that JSON can represent is read back\<close>






subsection \<open>A session and its value\<close>











subsection \<open>The value of a representable session\<close>











declare showNat.simps [simp]

subsection \<open>saveSync, then load\<close>




section \<open>Properties of session-store.ts: the debounced save and remove\<close>

lemma sessionFilePath_inj: "sessionFilePath a = sessionFilePath b \<longleftrightarrow> a = b"
  by (simp add: sessionFilePath_def)

lemma saveSync_fields:
  "timers (saveSync f st s) = timers st"
  "debounceTimers (saveSync f st s) = debounceTimers st"
  "nextTimer (saveSync f st s) = nextTimer st"
  "clock (saveSync f st s) = clock st"
  "writeLog (saveSync f st s) = writeLog st @ [(sessionFilePath (sess_id s), f s)]"
  "files (saveSync f st s) = AList.update (sessionFilePath (sess_id s)) (f s) (files st)"
  by (simp_all add: saveSync_def writeFileSync_def)

lemma saveSync_view:
  "pendingFor i (saveSync f st s) = pendingFor i st"
  "writesTo i (saveSync f st s) = writesTo i st @ (if sess_id s = i then [f s] else [])"
  "map_of (files (saveSync f st s)) (sessionFilePath i) =
     (if sess_id s = i then Some (f s) else map_of (files st) (sessionFilePath i))"
  by (simp_all add: pendingFor_def writesTo_def saveSync_fields sessionFilePath_inj
      AList.update_conv')

lemma same_handle:
  assumes "timersOk st" "t \<in> set (timers st)" "u \<in> set (timers st)" "fst t = fst u"
  shows "t = u"
  using assms unfolding timersOk_def by (meson distinct_map inj_onD)

lemma handle_of_id:
  assumes "timersOk st" "debounceTimers st i = Some h" "t \<in> set (timers st)"
  shows "fst t = h \<longleftrightarrow> sess_id (snd (snd t)) = i"
proof
  assume "fst t = h"
  moreover obtain u where "u \<in> set (timers st)" "fst u = h" "sess_id (snd (snd u)) = i"
    using assms(1,2) unfolding timersOk_def by blast
  ultimately show "sess_id (snd (snd t)) = i" using same_handle [OF assms(1,3)] by auto
next
  assume "sess_id (snd (snd t)) = i"
  then show "fst t = h" using assms unfolding timersOk_def by auto
qed

lemma no_handle_no_timer:
  assumes "timersOk st" "debounceTimers st i = None" "t \<in> set (timers st)"
  shows "sess_id (snd (snd t)) \<noteq> i"
  using assms unfolding timersOk_def by auto

lemma timersOk_saveSync: "timersOk st \<Longrightarrow> timersOk (saveSync f st s)"
  by (simp add: timersOk_def saveSync_fields)

lemma save_fields:
  "files (save st s) = files st"
  "writeLog (save st s) = writeLog st"
  "clock (save st s) = clock st"
  "nextTimer (save st s) = Suc (nextTimer st)"
  "debounceTimers (save st s) = (debounceTimers st)(sess_id s \<mapsto> nextTimer st)"
  "timers (save st s) =
     (case debounceTimers st (sess_id s) of
        None \<Rightarrow> timers st
      | Some existing \<Rightarrow> filter (\<lambda>t. fst t \<noteq> existing) (timers st)) @
     [(nextTimer st, clock st + 150, s)]"
  by (simp_all add: save_def setTimeout_def clearTimeout_def Let_def split: option.splits)

lemma cancel_by_handle:
  assumes "timersOk st"
  shows "(case debounceTimers st i of
            None \<Rightarrow> timers st
          | Some existing \<Rightarrow> filter (\<lambda>t. fst t \<noteq> existing) (timers st)) =
         filter (\<lambda>t. sess_id (snd (snd t)) \<noteq> i) (timers st)"
proof (cases "debounceTimers st i")
  case None
  then have "\<forall>t \<in> set (timers st). sess_id (snd (snd t)) \<noteq> i"
    using no_handle_no_timer [OF assms] by blast
  then show ?thesis using None by simp
next
  case (Some h)
  have "filter (\<lambda>t. fst t \<noteq> h) (timers st) =
        filter (\<lambda>t. sess_id (snd (snd t)) \<noteq> i) (timers st)"
    by (rule filter_cong [OF refl]) (simp add: handle_of_id [OF assms Some])
  then show ?thesis using Some by simp
qed

lemma save_timers:
  assumes "timersOk st"
  shows "timers (save st s) =
     filter (\<lambda>t. sess_id (snd (snd t)) \<noteq> sess_id s) (timers st) @
     [(nextTimer st, clock st + 150, s)]"
  unfolding save_fields cancel_by_handle [OF assms] by simp

lemma timersOk_eq:
  "timers a = timers b \<Longrightarrow> debounceTimers a = debounceTimers b \<Longrightarrow>
   nextTimer a = nextTimer b \<Longrightarrow> timersOk a = timersOk b"
  by (simp add: timersOk_def)

lemma timersOk_parts:
  assumes "timersOk st"
  shows "distinct (map fst (timers st))"
    and "\<And>t. t \<in> set (timers st) \<Longrightarrow> fst t < nextTimer st"
    and "\<And>t. t \<in> set (timers st) \<Longrightarrow>
           debounceTimers st (sess_id (snd (snd t))) = Some (fst t)"
    and "\<And>i h. debounceTimers st i = Some h \<Longrightarrow>
           \<exists>t \<in> set (timers st). fst t = h \<and> sess_id (snd (snd t)) = i"
  using assms unfolding timersOk_def by blast+

lemma timersOk_drop:
  assumes "timersOk st"
  shows "timersOk (st\<lparr> timers := filter (\<lambda>t. sess_id (snd (snd t)) \<noteq> i) (timers st),
                        debounceTimers := (debounceTimers st)(i := None) \<rparr>)"
proof -
  let ?T = "filter (\<lambda>t. sess_id (snd (snd t)) \<noteq> i) (timers st)"
  let ?D = "(debounceTimers st)(i := None)"
  note p = timersOk_parts [OF assms]
  have 1: "distinct (map fst ?T)" using p(1) by (simp add: distinct_map_filter)
  have 2: "\<forall>t \<in> set ?T. fst t < nextTimer st \<and> ?D (sess_id (snd (snd t))) = Some (fst t)"
    using p(2,3) by simp
  have 3: "\<forall>j h. ?D j = Some h \<longrightarrow> (\<exists>t \<in> set ?T. fst t = h \<and> sess_id (snd (snd t)) = j)"
  proof (intro allI impI)
    fix j h assume a: "?D j = Some h"
    then have j: "j \<noteq> i" and "debounceTimers st j = Some h" by (simp_all split: if_splits)
    then obtain t where t: "t \<in> set (timers st)" "fst t = h" "sess_id (snd (snd t)) = j"
      using p(4) by blast
    then have "t \<in> set ?T" using j by simp
    then show "\<exists>t \<in> set ?T. fst t = h \<and> sess_id (snd (snd t)) = j" using t by blast
  qed
  have f: "timers (st\<lparr> timers := ?T, debounceTimers := ?D \<rparr>) = ?T"
    "debounceTimers (st\<lparr> timers := ?T, debounceTimers := ?D \<rparr>) = ?D"
    "nextTimer (st\<lparr> timers := ?T, debounceTimers := ?D \<rparr>) = nextTimer st"
    by simp_all
  show ?thesis unfolding timersOk_def f by (intro conjI 1 2 3)
qed

lemma timersOk_save: "timersOk st \<Longrightarrow> timersOk (save st s)"
proof -
  assume ok: "timersOk st"
  let ?T = "filter (\<lambda>t. sess_id (snd (snd t)) \<noteq> sess_id s) (timers st)"
  let ?new = "(nextTimer st, clock st + 150, s)"
  let ?D = "(debounceTimers st)(sess_id s \<mapsto> nextTimer st)"
  note p = timersOk_parts [OF ok]
  have fresh: "nextTimer st \<notin> fst ` set ?T"
  proof
    assume "nextTimer st \<in> fst ` set ?T"
    then obtain t where "t \<in> set (timers st)" "fst t = nextTimer st" by auto
    then show False using p(2) [of t] by simp
  qed
  have 1: "distinct (map fst (?T @ [?new]))"
    using p(1) fresh by (simp add: distinct_map_filter)
  have 2: "\<forall>t \<in> set (?T @ [?new]).
      fst t < Suc (nextTimer st) \<and> ?D (sess_id (snd (snd t))) = Some (fst t)"
  proof
    fix t assume "t \<in> set (?T @ [?new])"
    then consider "t \<in> set (timers st)" "sess_id (snd (snd t)) \<noteq> sess_id s" | "t = ?new"
      by auto
    then show "fst t < Suc (nextTimer st) \<and> ?D (sess_id (snd (snd t))) = Some (fst t)"
    proof cases
      case 1
      then show ?thesis using p(2) [of t] p(3) [of t] by (simp add: less_Suc_eq)
    next
      case 2
      then show ?thesis by simp
    qed
  qed
  have 3: "\<forall>j h. ?D j = Some h \<longrightarrow>
      (\<exists>t \<in> set (?T @ [?new]). fst t = h \<and> sess_id (snd (snd t)) = j)"
  proof (intro allI impI)
    fix j h assume a: "?D j = Some h"
    show "\<exists>t \<in> set (?T @ [?new]). fst t = h \<and> sess_id (snd (snd t)) = j"
    proof (cases "j = sess_id s")
      case True
      then have "h = nextTimer st" using a by simp
      then show ?thesis using True by simp
    next
      case False
      then have "debounceTimers st j = Some h" using a by simp
      then obtain t where t: "t \<in> set (timers st)" "fst t = h" "sess_id (snd (snd t)) = j"
        using p(4) by blast
      then have "t \<in> set (?T @ [?new])" using False by simp
      then show ?thesis using t by blast
    qed
  qed
  show "timersOk (save st s)"
    unfolding timersOk_def save_timers [OF ok] save_fields(4,5) by (intro conjI 1 2 3)
qed

lemma save_view_same:
  assumes "timersOk st" "sess_id s = i"
  shows "pendingFor i (save st s) = [(nextTimer st, clock st + 150, s)]"
    and "writesTo i (save st s) = writesTo i st"
    and "map_of (files (save st s)) (sessionFilePath i) = map_of (files st) (sessionFilePath i)"
proof -
  show "pendingFor i (save st s) = [(nextTimer st, clock st + 150, s)]"
    unfolding pendingFor_def save_timers [OF assms(1)] using assms(2) by simp
qed (simp_all add: writesTo_def save_fields)

lemma save_view_other:
  assumes "timersOk st" "sess_id s \<noteq> i"
  shows "pendingFor i (save st s) = pendingFor i st"
    and "writesTo i (save st s) = writesTo i st"
    and "map_of (files (save st s)) (sessionFilePath i) = map_of (files st) (sessionFilePath i)"
proof -
  have "filter (\<lambda>t. sess_id (snd (snd t)) = i)
          (filter (\<lambda>t. sess_id (snd (snd t)) \<noteq> sess_id s) (timers st)) =
        filter (\<lambda>t. sess_id (snd (snd t)) = i) (timers st)"
    using assms(2) by (auto intro!: filter_cong)
  then show "pendingFor i (save st s) = pendingFor i st"
    unfolding pendingFor_def save_timers [OF assms(1)] using assms(2) by simp
qed (simp_all add: writesTo_def save_fields)

subsection \<open>remove\<close>

lemma remove_fields:
  assumes "timersOk st"
  shows "timers (remove st i) = filter (\<lambda>t. sess_id (snd (snd t)) \<noteq> i) (timers st)"
    and "debounceTimers (remove st i) = (debounceTimers st)(i := None)"
    and "writeLog (remove st i) = writeLog st"
    and "nextTimer (remove st i) = nextTimer st"
    and "clock (remove st i) = clock st"
    and "map_of (files (remove st i)) = (map_of (files st))(sessionFilePath i := None)"
proof -
  show "timers (remove st i) = filter (\<lambda>t. sess_id (snd (snd t)) \<noteq> i) (timers st)"
    using cancel_by_handle [OF assms, of i]
    by (simp add: remove_def Let_def clearTimeout_def unlinkSync_def split: option.splits)
  show "debounceTimers (remove st i) = (debounceTimers st)(i := None)"
    by (auto simp: remove_def Let_def clearTimeout_def unlinkSync_def split: option.splits)
  show "map_of (files (remove st i)) = (map_of (files st))(sessionFilePath i := None)"
    by (auto simp: remove_def Let_def clearTimeout_def unlinkSync_def existsSync_def
        AList.delete_conv' split: option.splits)
qed (simp_all add: remove_def Let_def clearTimeout_def unlinkSync_def split: option.splits)

lemma timersOk_remove:
  assumes "timersOk st"
  shows "timersOk (remove st i)"
  using timersOk_drop [OF assms, of i]
  by (subst timersOk_eq [where b = "st\<lparr> timers := filter (\<lambda>t. sess_id (snd (snd t)) \<noteq> i) (timers st),
                        debounceTimers := (debounceTimers st)(i := None) \<rparr>"])
     (simp_all add: remove_fields [OF assms])

subsection \<open>Timeouts that fire\<close>

lemma fireTimer_absent: "t \<notin> set (timers st) \<Longrightarrow> fireTimer f t st = st"
  by (simp add: fireTimer_def)

lemma fireTimer_fields:
  assumes "timersOk st" "t \<in> set (timers st)"
  shows "timers (fireTimer f t st) =
           filter (\<lambda>u. sess_id (snd (snd u)) \<noteq> sess_id (snd (snd t))) (timers st)"
    and "debounceTimers (fireTimer f t st) = (debounceTimers st)(sess_id (snd (snd t)) := None)"
    and "nextTimer (fireTimer f t st) = nextTimer st"
    and "writeLog (fireTimer f t st) =
           writeLog st @ [(sessionFilePath (sess_id (snd (snd t))), f (snd (snd t)))]"
    and "files (fireTimer f t st) =
           AList.update (sessionFilePath (sess_id (snd (snd t)))) (f (snd (snd t))) (files st)"
proof -
  have h: "debounceTimers st (sess_id (snd (snd t))) = Some (fst t)"
    by (rule timersOk_parts(3) [OF assms])
  have "filter (\<lambda>u. fst u \<noteq> fst t) (timers st) =
        filter (\<lambda>u. sess_id (snd (snd u)) \<noteq> sess_id (snd (snd t))) (timers st)"
    by (rule filter_cong [OF refl]) (simp add: handle_of_id [OF assms(1) h])
  then show "timers (fireTimer f t st) =
           filter (\<lambda>u. sess_id (snd (snd u)) \<noteq> sess_id (snd (snd t))) (timers st)"
    using assms(2) by (simp add: fireTimer_def saveCallback_def saveSync_fields clearTimeout_def)
qed (simp_all add: assms(2) fireTimer_def saveCallback_def saveSync_fields clearTimeout_def)

lemma timersOk_fireTimer:
  assumes "timersOk st"
  shows "timersOk (fireTimer f t st)"
proof (cases "t \<in> set (timers st)")
  case False
  then show ?thesis using assms by (simp add: fireTimer_absent)
next
  case True
  show ?thesis
    using timersOk_drop [OF assms, of "sess_id (snd (snd t))"]
    by (subst timersOk_eq [where b = "st\<lparr> timers :=
            filter (\<lambda>u. sess_id (snd (snd u)) \<noteq> sess_id (snd (snd t))) (timers st),
            debounceTimers := (debounceTimers st)(sess_id (snd (snd t)) := None) \<rparr>"])
       (simp_all add: fireTimer_fields [OF assms True])
qed

lemma filter_filter_other:
  "j \<noteq> i \<Longrightarrow>
   filter (\<lambda>t. sess_id (snd (snd t)) = i) (filter (\<lambda>t. sess_id (snd (snd t)) \<noteq> j) ts) =
   filter (\<lambda>t. sess_id (snd (snd t)) = i) ts"
  by (induction ts) auto

lemma filter_filter_same:
  "filter (\<lambda>t. sess_id (snd (snd t)) = i) (filter (\<lambda>t. sess_id (snd (snd t)) \<noteq> i) ts) = []"
  by (induction ts) auto

lemma fireTimer_view_other:
  assumes "timersOk st" "sess_id (snd (snd t)) \<noteq> i"
  shows "pendingFor i (fireTimer f t st) = pendingFor i st \<and>
         writesTo i (fireTimer f t st) = writesTo i st \<and>
         map_of (files (fireTimer f t st)) (sessionFilePath i) =
           map_of (files st) (sessionFilePath i)"
proof (cases "t \<in> set (timers st)")
  case False
  then show ?thesis by (simp add: fireTimer_absent)
next
  case True
  note f = fireTimer_fields [OF assms(1) True]
  have 1: "pendingFor i (fireTimer f t st) = pendingFor i st"
    unfolding pendingFor_def f by (rule filter_filter_other [OF assms(2)])
  have 2: "writesTo i (fireTimer f t st) = writesTo i st"
    unfolding writesTo_def f using assms(2) by (simp add: sessionFilePath_inj)
  have 3: "map_of (files (fireTimer f t st)) (sessionFilePath i) =
           map_of (files st) (sessionFilePath i)"
    unfolding f using assms(2) by (simp add: AList.update_conv' sessionFilePath_inj)
  show ?thesis by (intro conjI 1 2 3)
qed

lemma fireTimer_view_same:
  assumes "timersOk st" "t \<in> set (timers st)" "sess_id (snd (snd t)) = i"
  shows "pendingFor i (fireTimer f t st) = []"
    and "writesTo i (fireTimer f t st) = writesTo i st @ [f (snd (snd t))]"
    and "map_of (files (fireTimer f t st)) (sessionFilePath i) = Some (f (snd (snd t)))"
proof -
  note f = fireTimer_fields [OF assms(1,2)]
  show "pendingFor i (fireTimer f t st) = []"
    unfolding pendingFor_def f assms(3) by (rule filter_filter_same)
  show "writesTo i (fireTimer f t st) = writesTo i st @ [f (snd (snd t))]"
    unfolding writesTo_def f assms(3) by simp
  show "map_of (files (fireTimer f t st)) (sessionFilePath i) = Some (f (snd (snd t)))"
    unfolding f assms(3) by (simp add: AList.update_conv')
qed

lemma timersOk_fold_fire:
  "timersOk st \<Longrightarrow> timersOk (fold (fireTimer f) ts st)"
  by (induction ts arbitrary: st) (simp_all add: timersOk_fireTimer)

lemma fold_fire_others:
  assumes "timersOk st" "\<forall>t \<in> set ts. sess_id (snd (snd t)) \<noteq> i"
  shows "pendingFor i (fold (fireTimer f) ts st) = pendingFor i st \<and>
         writesTo i (fold (fireTimer f) ts st) = writesTo i st \<and>
         map_of (files (fold (fireTimer f) ts st)) (sessionFilePath i) =
           map_of (files st) (sessionFilePath i)"
  using assms
proof (induction ts arbitrary: st)
  case Nil
  then show ?case by simp
next
  case (Cons t ts)
  have ok: "timersOk (fireTimer f t st)" by (rule timersOk_fireTimer [OF Cons.prems(1)])
  have ne: "sess_id (snd (snd t)) \<noteq> i" using Cons.prems(2) by simp
  have rest: "\<forall>t \<in> set ts. sess_id (snd (snd t)) \<noteq> i" using Cons.prems(2) by simp
  show ?case
    using Cons.IH [OF ok rest] fireTimer_view_other [OF Cons.prems(1) ne, of f]
    by simp
qed

subsection \<open>The clock advances\<close>

lemma set_dueTimers: "set (dueTimers T st) = {t \<in> set (timers st). fst (snd t) \<le> T}"
  by (simp add: dueTimers_def)

lemma distinct_dueTimers:
  assumes "timersOk st"
  shows "distinct (dueTimers T st)"
proof -
  have "distinct (timers st)" using timersOk_parts(1) [OF assms] by (simp add: distinct_map)
  then show ?thesis by (simp add: dueTimers_def)
qed

lemma advance_fields:
  "clock (advance f ms st) = clock st + ms"
  "pendingFor i (advance f ms st) = pendingFor i (fold (fireTimer f) (dueTimers (clock st + ms) st) st)"
  "writesTo i (advance f ms st) = writesTo i (fold (fireTimer f) (dueTimers (clock st + ms) st) st)"
  "files (advance f ms st) = files (fold (fireTimer f) (dueTimers (clock st + ms) st) st)"
  by (simp_all add: advance_def pendingFor_def writesTo_def)

lemma timersOk_advance:
  assumes "timersOk st"
  shows "timersOk (advance f ms st)"
  using timersOk_fold_fire [OF assms, of f "dueTimers (clock st + ms) st"]
  by (subst timersOk_eq [where b = "fold (fireTimer f) (dueTimers (clock st + ms) st) st"])
     (simp_all add: advance_def)

lemma mem_pendingFor:
  "t \<in> set (pendingFor i st) \<longleftrightarrow> t \<in> set (timers st) \<and> sess_id (snd (snd t)) = i"
  by (simp add: pendingFor_def)

lemma advance_keeps:
  assumes "timersOk st" "\<forall>t \<in> set (pendingFor i st). clock st + ms < fst (snd t)"
  shows "pendingFor i (advance f ms st) = pendingFor i st \<and>
         writesTo i (advance f ms st) = writesTo i st \<and>
         map_of (files (advance f ms st)) (sessionFilePath i) =
           map_of (files st) (sessionFilePath i)"
proof -
  have "\<forall>t \<in> set (dueTimers (clock st + ms) st). sess_id (snd (snd t)) \<noteq> i"
  proof
    fix t assume "t \<in> set (dueTimers (clock st + ms) st)"
    then have t: "t \<in> set (timers st)" "fst (snd t) \<le> clock st + ms"
      by (simp_all add: set_dueTimers)
    show "sess_id (snd (snd t)) \<noteq> i"
    proof
      assume "sess_id (snd (snd t)) = i"
      then have "t \<in> set (pendingFor i st)" using t(1) by (simp add: mem_pendingFor)
      then have "clock st + ms < fst (snd t)" using assms(2) by blast
      then show False using t(2) by simp
    qed
  qed
  then show ?thesis
    unfolding advance_fields by (rule fold_fire_others [OF assms(1)])
qed

lemma fold_fire_one:
  assumes ok: "timersOk st" and d: "distinct ts" and t: "t \<in> set ts" "t \<in> set (timers st)"
    and i: "sess_id (snd (snd t)) = i"
    and others: "\<forall>u \<in> set ts. u \<noteq> t \<longrightarrow> sess_id (snd (snd u)) \<noteq> i"
  shows "pendingFor i (fold (fireTimer f) ts st) = [] \<and>
         writesTo i (fold (fireTimer f) ts st) = writesTo i st @ [f (snd (snd t))] \<and>
         map_of (files (fold (fireTimer f) ts st)) (sessionFilePath i) = Some (f (snd (snd t)))"
proof -
  obtain pre post where ts: "ts = pre @ t # post"
    using split_list [OF t(1)] by blast
  have npre: "t \<notin> set pre" and npost: "t \<notin> set post" using d unfolding ts by simp_all
  have opre: "\<forall>u \<in> set pre. sess_id (snd (snd u)) \<noteq> i"
    using others npre unfolding ts by auto
  have opost: "\<forall>u \<in> set post. sess_id (snd (snd u)) \<noteq> i"
    using others npost unfolding ts by auto
  define st1 where "st1 = fold (fireTimer f) pre st"
  define st2 where "st2 = fireTimer f t st1"
  have ok1: "timersOk st1" unfolding st1_def by (rule timersOk_fold_fire [OF ok])
  have ok2: "timersOk st2" unfolding st2_def by (rule timersOk_fireTimer [OF ok1])
  have v1: "pendingFor i st1 = pendingFor i st" "writesTo i st1 = writesTo i st"
    using fold_fire_others [OF ok opre, of f] unfolding st1_def by simp_all
  have "t \<in> set (pendingFor i st)" using t(2) i by (simp add: mem_pendingFor)
  then have t1: "t \<in> set (timers st1)" unfolding v1(1) [symmetric] by (simp add: mem_pendingFor)
  have v2: "pendingFor i st2 = []" "writesTo i st2 = writesTo i st @ [f (snd (snd t))]"
    "map_of (files st2) (sessionFilePath i) = Some (f (snd (snd t)))"
    using fireTimer_view_same [OF ok1 t1 i, of f] v1(2) unfolding st2_def by simp_all
  have "fold (fireTimer f) ts st = fold (fireTimer f) post st2"
    unfolding ts st2_def st1_def by simp
  then show ?thesis using fold_fire_others [OF ok2 opost, of f] v2 by simp
qed

lemma advance_fires:
  assumes ok: "timersOk st" and p: "pendingFor i st = [t]" and due: "fst (snd t) \<le> clock st + ms"
  shows "pendingFor i (advance f ms st) = [] \<and>
         writesTo i (advance f ms st) = writesTo i st @ [f (snd (snd t))] \<and>
         map_of (files (advance f ms st)) (sessionFilePath i) = Some (f (snd (snd t)))"
proof -
  have "t \<in> set (pendingFor i st)" unfolding p by simp
  then have t: "t \<in> set (timers st)" "sess_id (snd (snd t)) = i" by (simp_all add: mem_pendingFor)
  have td: "t \<in> set (dueTimers (clock st + ms) st)" using t(1) due by (simp add: set_dueTimers)
  have others: "\<forall>u \<in> set (dueTimers (clock st + ms) st). u \<noteq> t \<longrightarrow> sess_id (snd (snd u)) \<noteq> i"
  proof (intro ballI impI notI)
    fix u assume u: "u \<in> set (dueTimers (clock st + ms) st)" "u \<noteq> t" "sess_id (snd (snd u)) = i"
    then have "u \<in> set (pendingFor i st)" by (simp add: set_dueTimers mem_pendingFor)
    then show False using u(2) unfolding p by simp
  qed
  show ?thesis
    unfolding advance_fields
    by (rule fold_fire_one [OF ok distinct_dueTimers [OF ok] td t others])
qed

subsection \<open>A burst of calls of save\<close>

lemma burst_pending:
  assumes "timersOk st" "sess_id s = i" "\<forall>x \<in> set rest. fst x < 150 \<and> sess_id (snd x) = i"
  shows "timersOk (burst f st s rest) \<and>
         (\<exists>h. pendingFor i (burst f st s rest) =
                 [(h, clock (burst f st s rest) + 150, last (s # map snd rest))]) \<and>
         writesTo i (burst f st s rest) = writesTo i st"
  using assms
proof (induction rest arbitrary: st s)
  case Nil
  show ?case
    using timersOk_save [OF Nil(1), of s] save_view_same [OF Nil(1) Nil(2)]
    by (simp add: save_fields)
next
  case (Cons x rest)
  obtain gap s' where x: "x = (gap, s')" by (cases x)
  have gap: "gap < 150" and s': "sess_id s' = i"
    and rest: "\<forall>x \<in> set rest. fst x < 150 \<and> sess_id (snd x) = i"
    using Cons.prems(3) x by simp_all
  define st1 where "st1 = save st s"
  define st2 where "st2 = advance f gap st1"
  have ok1: "timersOk st1" unfolding st1_def by (rule timersOk_save [OF Cons.prems(1)])
  have p1: "pendingFor i st1 = [(nextTimer st, clock st1 + 150, s)]"
    and w1: "writesTo i st1 = writesTo i st"
    unfolding st1_def using save_view_same [OF Cons.prems(1,2)] by (simp_all add: save_fields)
  have "\<forall>t \<in> set (pendingFor i st1). clock st1 + gap < fst (snd t)"
    unfolding p1 using gap by simp
  then have w2: "writesTo i st2 = writesTo i st1"
    unfolding st2_def using advance_keeps [OF ok1] by blast
  have ok2: "timersOk st2" unfolding st2_def by (rule timersOk_advance [OF ok1])
  have "burst f st s (x # rest) = burst f st2 s' rest"
    unfolding x st2_def st1_def by simp
  moreover have "last (s # map snd (x # rest)) = last (s' # map snd rest)"
    unfolding x by simp
  ultimately show ?case using Cons.IH [OF ok2 s' rest] w2 w1 by simp
qed

lemma burst_then_wait:
  assumes "timersOk st" "sess_id s = i" "\<forall>x \<in> set rest. fst x < 150 \<and> sess_id (snd x) = i"
    and "150 \<le> ms"
  shows "writesTo i (burst f st s rest) = writesTo i st \<and>
         writesTo i (advance f ms (burst f st s rest)) =
           writesTo i st @ [f (last (s # map snd rest))] \<and>
         map_of (files (advance f ms (burst f st s rest))) (sessionFilePath i) =
           Some (f (last (s # map snd rest))) \<and>
         pendingFor i (advance f ms (burst f st s rest)) = []"
proof -
  define st1 where "st1 = burst f st s rest"
  obtain h where ok1: "timersOk st1"
    and p1: "pendingFor i st1 = [(h, clock st1 + 150, last (s # map snd rest))]"
    and w1: "writesTo i st1 = writesTo i st"
    using burst_pending [OF assms(1,2,3), of f] unfolding st1_def by blast
  have "fst (snd (h, clock st1 + 150, last (s # map snd rest))) \<le> clock st1 + ms"
    using assms(4) by simp
  from advance_fires [OF ok1 p1 this, of f]
  show ?thesis unfolding st1_def [symmetric] using w1 by simp
qed

subsection \<open>After remove\<close>

lemma remove_view:
  assumes "timersOk st"
  shows "pendingFor i (remove st i) = [] \<and>
         debounceTimers (remove st i) i = None \<and>
         map_of (files (remove st i)) (sessionFilePath i) = None \<and>
         writesTo i (remove st i) = writesTo i st"
  unfolding pendingFor_def writesTo_def remove_fields [OF assms]
  by (simp add: filter_filter_same)

lemma remove_view_any:
  assumes "timersOk st" "pendingFor i st = []" "map_of (files st) (sessionFilePath i) = None"
  shows "pendingFor i (remove st j) = [] \<and>
         map_of (files (remove st j)) (sessionFilePath i) = None \<and>
         writesTo i (remove st j) = writesTo i st"
proof -
  have none: "\<forall>t \<in> set (timers st). sess_id (snd (snd t)) \<noteq> i"
    using assms(2) unfolding pendingFor_def filter_empty_conv by simp
  have 1: "pendingFor i (remove st j) = []"
    unfolding pendingFor_def remove_fields [OF assms(1)] filter_empty_conv
    using none by simp
  have 2: "map_of (files (remove st j)) (sessionFilePath i) = None"
    unfolding remove_fields [OF assms(1)] using assms(3) by simp
  have 3: "writesTo i (remove st j) = writesTo i st"
    unfolding writesTo_def remove_fields [OF assms(1)] by simp
  show ?thesis by (intro conjI 1 2 3)
qed

lemma timersOk_step: "timersOk st \<Longrightarrow> timersOk (step f st e)"
  by (cases e) (simp_all add: timersOk_save timersOk_saveSync timersOk_remove timersOk_advance)

lemma step_keeps_removed:
  assumes "timersOk st" "pendingFor i st = []" "map_of (files st) (sessionFilePath i) = None"
    and "\<not> savesId i e"
  shows "pendingFor i (step f st e) = [] \<and>
         map_of (files (step f st e)) (sessionFilePath i) = None \<and>
         writesTo i (step f st e) = writesTo i st"
proof (cases e)
  case (Save s)
  then have "sess_id s \<noteq> i" using assms(4) by simp
  then show ?thesis using save_view_other [OF assms(1)] assms(2,3) Save by simp
next
  case (SaveSync s)
  then have "sess_id s \<noteq> i" using assms(4) by simp
  then show ?thesis using assms(2,3) SaveSync by (simp add: saveSync_view)
next
  case (Remove j)
  then show ?thesis using remove_view_any [OF assms(1,2,3), of j] by simp
next
  case (Advance ms)
  have "\<forall>t \<in> set (pendingFor i st). clock st + ms < fst (snd t)" unfolding assms(2) by simp
  from advance_keeps [OF assms(1) this, of f]
  show ?thesis using assms(2,3) Advance by simp
qed

lemma run_keeps_removed:
  assumes "timersOk st" "pendingFor i st = []" "map_of (files st) (sessionFilePath i) = None"
    and "\<forall>e \<in> set events. \<not> savesId i e"
  shows "pendingFor i (run f st events) = [] \<and>
         map_of (files (run f st events)) (sessionFilePath i) = None \<and>
         writesTo i (run f st events) = writesTo i st"
  using assms unfolding run_def
proof (induction events arbitrary: st)
  case Nil
  then show ?case by simp
next
  case (Cons e events)
  have ne: "\<not> savesId i e" and rest: "\<forall>e \<in> set events. \<not> savesId i e"
    using Cons.prems(4) by simp_all
  note s = step_keeps_removed [OF Cons.prems(1,2,3) ne, of f]
  have ok: "timersOk (step f st e)" by (rule timersOk_step [OF Cons.prems(1)])
  show ?case
    using Cons.IH [OF ok s [THEN conjunct1] s [THEN conjunct2, THEN conjunct1] rest] s
    by simp
qed

lemma remove_then_run:
  assumes "timersOk st" "\<forall>e \<in> set events. \<not> savesId i e"
  shows "writesTo i (run f (remove st i) events) = writesTo i st \<and>
         map_of (files (run f (remove st i) events)) (sessionFilePath i) = None \<and>
         pendingFor i (run f (remove st i) events) = []"
proof -
  note r = remove_view [OF assms(1), of i]
  have ok: "timersOk (remove st i)" by (rule timersOk_remove [OF assms(1)])
  from run_keeps_removed [OF ok r [THEN conjunct1]
      r [THEN conjunct2, THEN conjunct2, THEN conjunct1] assms(2), of f]
  show ?thesis using r by simp
qed

lemma timersOk_new: "timersOk (newSessionStore d now)"
  by (simp add: timersOk_def newSessionStore_def)

lemma timersOk_run: "timersOk st \<Longrightarrow> timersOk (run f st events)"
  unfolding run_def by (induction events arbitrary: st) (simp_all add: timersOk_step)

text \<open>
  C2. In every state the store reaches (\<open>timersOk\<close>): when \<open>save\<close> is called for one
  session id, then again after gaps that are each shorter than 150 ms, nothing is
  written to the file of that id during the burst, and once 150 ms or more have passed
  after the last call exactly one text has been written to it, that of the session
  supplied last, which is then the content of the file, and no timeout is left for the
  id. After \<open>remove(id)\<close> no timeout for the id is pending and \<open>debounceTimers\<close> has no
  entry for it; whatever happens next, short of a new \<open>save\<close> or \<open>saveSync\<close> of that
  id, nothing is written to its file, and the file is absent.
\<close>

theorem save_coalesces_and_remove_cancels:
  assumes "timersOk st"
  shows "(sess_id s = i \<and> (\<forall>x \<in> set rest. fst x < 150 \<and> sess_id (snd x) = i) \<and> 150 \<le> ms \<longrightarrow>
            writesTo i (burst f st s rest) = writesTo i st \<and>
            writesTo i (advance f ms (burst f st s rest)) =
              writesTo i st @ [f (last (s # map snd rest))] \<and>
            map_of (files (advance f ms (burst f st s rest))) (sessionFilePath i) =
              Some (f (last (s # map snd rest))) \<and>
            pendingFor i (advance f ms (burst f st s rest)) = []) \<and>
         pendingFor i (remove st i) = [] \<and>
         debounceTimers (remove st i) i = None \<and>
         ((\<forall>e \<in> set events. \<not> savesId i e) \<longrightarrow>
            writesTo i (run f (remove st i) events) = writesTo i st \<and>
            map_of (files (run f (remove st i) events)) (sessionFilePath i) = None \<and>
            pendingFor i (run f (remove st i) events) = [])"
proof (intro conjI impI)
  assume h: "sess_id s = i \<and> (\<forall>x \<in> set rest. fst x < 150 \<and> sess_id (snd x) = i) \<and> 150 \<le> ms"
  note b = burst_then_wait [OF assms h [THEN conjunct1] h [THEN conjunct2, THEN conjunct1]
      h [THEN conjunct2, THEN conjunct2], of f]
  show "writesTo i (burst f st s rest) = writesTo i st"
    and "writesTo i (advance f ms (burst f st s rest)) =
              writesTo i st @ [f (last (s # map snd rest))]"
    and "map_of (files (advance f ms (burst f st s rest))) (sessionFilePath i) =
              Some (f (last (s # map snd rest)))"
    and "pendingFor i (advance f ms (burst f st s rest)) = []"
    using b by simp_all
next
  show "pendingFor i (remove st i) = []" and "debounceTimers (remove st i) i = None"
    using remove_view [OF assms, of i] by simp_all
next
  assume e: "\<forall>e \<in> set events. \<not> savesId i e"
  show "writesTo i (run f (remove st i) events) = writesTo i st"
    and "map_of (files (run f (remove st i) events)) (sessionFilePath i) = None"
    and "pendingFor i (run f (remove st i) events) = []"
    using remove_then_run [OF assms e, of f] by simp_all
qed

theorem save_coalesces_and_remove_cancels_witness:
  "writesTo ''debounce-3''
     (burst example_session_stringify (newSessionStore [] 0) (debounce_session ''debounce-3'' ''first'')
        [(50, debounce_session ''debounce-3'' ''second''),
         (50, debounce_session ''debounce-3'' ''third'')]) = [] \<and>
   writesTo ''debounce-3''
     (advance example_session_stringify 150
        (burst example_session_stringify (newSessionStore [] 0)
           (debounce_session ''debounce-3'' ''first'')
           [(50, debounce_session ''debounce-3'' ''second''),
            (50, debounce_session ''debounce-3'' ''third'')])) = [''debounce-3|third''] \<and>
   pendingFor ''rm-2''
     (remove (save (newSessionStore [] 0) (debounce_session ''rm-2'' ''m'')) ''rm-2'') = [] \<and>
   writesTo ''rm-2''
     (run example_session_stringify
        (remove (save (newSessionStore [] 0) (debounce_session ''rm-2'' ''m'')) ''rm-2'')
        [Advance 300]) = [] \<and>
   map_of (files (run example_session_stringify
        (remove (save (newSessionStore [] 0) (debounce_session ''rm-2'' ''m'')) ''rm-2'')
        [Advance 300])) (sessionFilePath ''rm-2'') = None"
proof -
  let ?st0 = "newSessionStore [] 0"
  let ?rest = "[(50::nat, debounce_session ''debounce-3'' ''second''),
                (50, debounce_session ''debounce-3'' ''third'')]"
  have ok0: "timersOk ?st0" by (rule timersOk_new)
  have ok1: "timersOk (save ?st0 (debounce_session ''rm-2'' ''m''))"
    by (rule timersOk_save [OF ok0])
  have w0: "writesTo ''debounce-3'' ?st0 = []" "writesTo ''rm-2'' ?st0 = []"
    by (simp_all add: writesTo_def newSessionStore_def)
  have h: "sess_id (debounce_session ''debounce-3'' ''first'') = ''debounce-3'' \<and>
      (\<forall>x \<in> set ?rest. fst x < 150 \<and> sess_id (snd x) = ''debounce-3'') \<and> (150::nat) \<le> 150"
    by (simp add: debounce_session_def)
  note A = save_coalesces_and_remove_cancels [OF ok0,
      of "debounce_session ''debounce-3'' ''first''" "''debounce-3''" ?rest 150
        example_session_stringify "[]", THEN conjunct1, THEN mp, OF h]
  have e: "\<forall>e \<in> set [Advance 300]. \<not> savesId ''rm-2'' e" by simp
  note B = save_coalesces_and_remove_cancels [OF ok1,
      of "debounce_session ''rm-2'' ''m''" "''rm-2''" "[]" 150
        example_session_stringify "[Advance 300]", THEN conjunct2]
  note B1 = B [THEN conjunct1]
  note B2 = B [THEN conjunct2, THEN conjunct2, THEN mp, OF e]
  have l: "example_session_stringify (last (debounce_session ''debounce-3'' ''first'' # map snd ?rest)) =
      ''debounce-3|third''"
    by (simp add: debounce_session_def example_session_stringify_def)
  have wr: "writesTo ''rm-2'' (save ?st0 (debounce_session ''rm-2'' ''m'')) = []"
    by (simp add: writesTo_def save_fields newSessionStore_def)
  show ?thesis
    using A B1 B2 unfolding w0 l wr by simp
qed

section \<open>Properties of recorder.ts: cleanup\<close>

lemma find_by_name:
  assumes "distinct (map rf_name d)" "e \<in> set d"
  shows "find (\<lambda>x. rf_name x = rf_name e) d = Some e"
  using assms
proof (induction d)
  case Nil
  then show ?case by simp
next
  case (Cons a d)
  show ?case
  proof (cases "rf_name a = rf_name e")
    case True
    have "a = e"
    proof (rule ccontr)
      assume "a \<noteq> e"
      then have "e \<in> set d" using Cons.prems(2) by simp
      then have "rf_name e \<in> set (map rf_name d)" by simp
      then show False using Cons.prems(1) True by simp
    qed
    then show ?thesis by simp
  next
    case False
    then have "e \<in> set d" using Cons.prems(2) by auto
    then show ?thesis using Cons.IH Cons.prems(1) False by simp
  qed
qed

lemma collectStep_file:
  assumes "distinct (map rf_name d)" "e \<in> set d"
  shows "collectStep p d acc (rf_name e) = (fst acc @ [entryOf p e], snd acc + fileLines e)"
  using find_by_name [OF assms]
  by (simp add: collectStep_def Let_def rec_statSync_def countFileLines_def rec_readFileSync_def
      entryOf_def fileLines_def)

lemma collect_files:
  assumes "distinct (map rf_name d)" "set js \<subseteq> set d"
  shows "foldl (collectStep p d) acc (map rf_name js) =
         (fst acc @ map (entryOf p) js, snd acc + linesOf js)"
  using assms(2)
proof (induction js arbitrary: acc)
  case Nil
  then show ?case by (simp add: linesOf_def)
next
  case (Cons e js)
  have e: "e \<in> set d" and js: "set js \<subseteq> set d" using Cons.prems by simp_all
  show ?case
    using Cons.IH [OF js, of "(fst acc @ [entryOf p e], snd acc + fileLines e)"]
    by (simp add: collectStep_file [OF assms(1) e] linesOf_def)
qed

lemma insort_key_entryOf:
  "insort_key ce_mtimeMs (entryOf p e) (map (entryOf p) es) =
   map (entryOf p) (insort_key rf_mtimeMs e es)"
  by (induction es) (simp_all add: entryOf_def)

lemma sort_key_entryOf:
  "sort_key ce_mtimeMs (map (entryOf p) es) = map (entryOf p) (sort_key rf_mtimeMs es)"
  by (induction es) (simp_all add: insort_key_entryOf)

lemma same_name_same_file:
  assumes "distinct (map rf_name d)" "x \<in> set d" "e \<in> set d" "rf_name x = rf_name e"
  shows "x = e"
proof -
  have "find (\<lambda>y. rf_name y = rf_name e) d = Some x"
    using find_by_name [OF assms(1,2)] unfolding assms(4) .
  moreover have "find (\<lambda>y. rf_name y = rf_name e) d = Some e"
    by (rule find_by_name [OF assms(1,3)])
  ultimately show ?thesis by simp
qed

lemma unlink_file:
  assumes "distinct (map rf_name d)" "e \<in> set d"
  shows "rec_unlinkSync d (rf_name e) = Inr (filter (\<lambda>x. x \<noteq> e) d)"
proof -
  have "filter (\<lambda>x. rf_name x \<noteq> rf_name e) d = filter (\<lambda>x. x \<noteq> e) d"
  proof (rule filter_cong [OF refl])
    fix x assume x: "x \<in> set d"
    show "(rf_name x \<noteq> rf_name e) = (x \<noteq> e)"
    proof (cases "x = e")
      case True
      then show ?thesis by simp
    next
      case False
      then have "rf_name x \<noteq> rf_name e"
        using same_name_same_file [OF assms(1) x assms(2)] by (rule contrapos_nn)
      then show ?thesis using False by simp
    qed
  qed
  moreover have "find (\<lambda>x. rf_name x = rf_name e) d = Some e"
    by (rule find_by_name [OF assms])
  ultimately show ?thesis unfolding rec_unlinkSync_def by simp
qed

lemma distinct_names_filter:
  "distinct (map rf_name d) \<Longrightarrow> distinct (map rf_name (filter P d))"
  by (rule distinct_map_filter)

lemma linesOf_Cons: "linesOf (e # es) = fileLines e + linesOf es"
  by (simp add: linesOf_def)

lemma deleteLoop_spec:
  assumes A: "\<And>e. (path_join [p, rf_name e] \<in> set act) = A e"
    and "distinct (map rf_name d)" "distinct S" "set S \<subseteq> set d"
  shows "\<exists>k \<le> length (filter (\<lambda>e. \<not> A e) S).
           deleteLoop limit act (map (entryOf p) S) (t, n, d) =
             (t - linesOf (take k (filter (\<lambda>e. \<not> A e) S)),
              n + k,
              filter (\<lambda>e. e \<notin> set (take k (filter (\<lambda>e. \<not> A e) S))) d) \<and>
           (\<forall>j < k. limit < t - linesOf (take j (filter (\<lambda>e. \<not> A e) S))) \<and>
           (k < length (filter (\<lambda>e. \<not> A e) S) \<longrightarrow>
              t - linesOf (take k (filter (\<lambda>e. \<not> A e) S)) \<le> limit)"
  using assms(2-)
proof (induction S arbitrary: t n d)
  case Nil
  show ?case by (simp add: linesOf_def)
next
  case (Cons e S)
  let ?C = "filter (\<lambda>e. \<not> A e) S"
  have e: "e \<in> set d" and eS: "e \<notin> set S" and dS: "distinct S" and sub: "set S \<subseteq> set d"
    using Cons.prems by simp_all
  have path: "(ce_path (entryOf p e) \<in> set act) = A e" "ce_filename (entryOf p e) = rf_name e"
    "ce_lines (entryOf p e) = fileLines e"
    by (simp_all add: entryOf_def A)
  show ?case
  proof (cases "t \<le> limit")
    case True
    have "deleteLoop limit act (map (entryOf p) (e # S)) (t, n, d) = (t, n, d)"
      using True by simp
    then show ?thesis using True
      by (intro exI [of _ 0]) (simp add: linesOf_def)
  next
    case over: False
    show ?thesis
    proof (cases "A e")
      case True
      have step: "deleteLoop limit act (map (entryOf p) (e # S)) (t, n, d) =
          deleteLoop limit act (map (entryOf p) S) (t, n, d)"
        using over True path by simp
      have C: "filter (\<lambda>e. \<not> A e) (e # S) = ?C"
        using True by simp
      show ?thesis unfolding step C by (rule Cons.IH [OF Cons.prems(1) dS sub])
    next
      case False
      let ?d = "filter (\<lambda>x. x \<noteq> e) d"
      have step: "deleteLoop limit act (map (entryOf p) (e # S)) (t, n, d) =
          deleteLoop limit act (map (entryOf p) S) (t - fileLines e, Suc n, ?d)"
        using over False path unlink_file [OF Cons.prems(1) e] by simp
      have C: "filter (\<lambda>e. \<not> A e) (e # S) = e # ?C"
        using False by simp
      have d': "distinct (map rf_name ?d)" by (rule distinct_names_filter [OF Cons.prems(1)])
      have sub': "set S \<subseteq> set ?d" using sub eS by auto
      from Cons.IH [OF d' dS sub', of "t - fileLines e" "Suc n"]
      obtain k where k: "k \<le> length ?C"
        and res: "deleteLoop limit act (map (entryOf p) S) (t - fileLines e, Suc n, ?d) =
             (t - fileLines e - linesOf (take k ?C), Suc n + k,
              filter (\<lambda>x. x \<notin> set (take k ?C)) ?d)"
        and above: "\<forall>j < k. limit < t - fileLines e - linesOf (take j ?C)"
        and stop: "k < length ?C \<longrightarrow> t - fileLines e - linesOf (take k ?C) \<le> limit"
        by (elim exE conjE)
      have f: "filter (\<lambda>x. x \<notin> set (take k ?C)) ?d =
               filter (\<lambda>x. x \<notin> set (take (Suc k) (e # ?C))) d"
        by (simp add: conj_commute)
      have above': "\<forall>j < Suc k. limit < t - linesOf (take j (e # ?C))"
      proof (intro allI impI)
        fix j assume "j < Suc k"
        show "limit < t - linesOf (take j (e # ?C))"
        proof (cases j)
          case 0
          then show ?thesis using over by (simp add: linesOf_def)
        next
          case (Suc j')
          then have "j' < k" using \<open>j < Suc k\<close> by simp
          then have "limit < t - fileLines e - linesOf (take j' ?C)" using above by simp
          then show ?thesis unfolding Suc by (simp add: linesOf_Cons)
        qed
      qed
      have 1: "Suc k \<le> length (e # ?C)" using k by simp
      have 2: "deleteLoop limit act (map (entryOf p) S) (t - fileLines e, Suc n, ?d) =
          (t - linesOf (take (Suc k) (e # ?C)), n + Suc k,
           filter (\<lambda>x. x \<notin> set (take (Suc k) (e # ?C))) d)"
        unfolding res f by (simp add: linesOf_Cons diff_diff_eq)
      have 3: "Suc k < length (e # ?C) \<longrightarrow> t - linesOf (take (Suc k) (e # ?C)) \<le> limit"
        using stop by (simp add: linesOf_Cons diff_diff_eq)
      show ?thesis
        unfolding step C
        by (rule exI [of _ "Suc k"]) (intro conjI 1 2 above' 3)
    qed
  qed
qed

lemma ensureDir_fields:
  "recFiles (ensureDir m) = recFiles m"
  "recorders (ensureDir m) = recorders m"
  "maxLines (ensureDir m) = maxLines m"
  "recordingsDir (ensureDir m) = recordingsDir m"
  by (simp_all add: ensureDir_def)

lemma distinct_files: "distinct (map rf_name d) \<Longrightarrow> distinct d"
  by (simp add: distinct_map)

lemma candidates_sorted_filter:
  "candidates m = filter (\<lambda>e. \<not> isActive m e) (sort_key rf_mtimeMs (jsonlFiles m))"
  by (simp add: candidates_def filter_sort)

lemma set_candidates:
  "set (candidates m) =
     {e \<in> set (recFiles m). endsWith (rf_name e) ''.jsonl'' \<and> \<not> isActive m e}"
  by (auto simp: candidates_def jsonlFiles_def)

lemma sorted_candidates: "sorted (map rf_mtimeMs (candidates m))"
  by (simp add: candidates_def)

lemma distinct_candidates:
  "distinct (map rf_name (recFiles m)) \<Longrightarrow> distinct (candidates m)"
  by (simp add: candidates_def jsonlFiles_def distinct_files)

lemma cleanup_unfold:
  assumes d: "distinct (map rf_name (recFiles m))"
  shows "cleanup m =
     (if jsonlFiles m = [] \<or> totalLinesOf m \<le> maxLines m then (0, ensureDir m)
      else (case deleteLoop (maxLines m) (map (\<lambda>r. rec_filePath (snd r)) (recorders m))
                   (map (entryOf (recordingsDir m)) (sort_key rf_mtimeMs (jsonlFiles m)))
                   (totalLinesOf m, 0, recFiles m) of
              (_, deleted, d') \<Rightarrow> (deleted, (ensureDir m)\<lparr> recFiles := d' \<rparr>)))"
proof -
  have names: "filter (\<lambda>f. endsWith f ''.jsonl'') (map rf_name (recFiles m)) =
      map rf_name (jsonlFiles m)"
    by (simp add: jsonlFiles_def filter_map comp_def)
  have sub: "set (jsonlFiles m) \<subseteq> set (recFiles m)" by (auto simp: jsonlFiles_def)
  have coll: "foldl (collectStep (recordingsDir m) (recFiles m)) ([], 0) (map rf_name (jsonlFiles m)) =
      (map (entryOf (recordingsDir m)) (jsonlFiles m), totalLinesOf m)"
    using collect_files [OF d sub, of "recordingsDir m" "([], 0)"]
    by (simp add: totalLinesOf_def)
  show ?thesis
    by (simp add: cleanup_def Let_def ensureDir_fields rec_readdirSync_def names coll
        sort_key_entryOf)
qed

lemma linesOf_remove:
  assumes "distinct J" "distinct X" "set X \<subseteq> set J"
  shows "linesOf (filter (\<lambda>e. e \<notin> set X) J) = linesOf J - linesOf X"
proof -
  have "linesOf (filter (\<lambda>e. e \<notin> set X) J) = sum fileLines (set J - set X)"
    unfolding linesOf_def using assms(1)
    by (subst sum_list_distinct_conv_sum_set) (auto intro: arg_cong2 [where f = sum])
  also have "\<dots> = sum fileLines (set J) - sum fileLines (set X)"
    by (rule sum_diff) (use assms(3) in simp_all)
  also have "\<dots> = linesOf J - linesOf X"
    unfolding linesOf_def using assms(1,2) by (simp add: sum_list_distinct_conv_sum_set)
  finally show ?thesis .
qed

lemma ensureDir_same_files: "(ensureDir m)\<lparr> recFiles := recFiles m \<rparr> = ensureDir m"
  by (simp add: ensureDir_def)

lemma cleanup_prefix:
  assumes d: "distinct (map rf_name (recFiles m))"
  shows "\<exists>k \<le> length (candidates m).
           cleanup m =
             (k, (ensureDir m)\<lparr> recFiles :=
                   filter (\<lambda>e. e \<notin> set (take k (candidates m))) (recFiles m) \<rparr>) \<and>
           (\<forall>j < k. maxLines m < totalLinesOf m - linesOf (take j (candidates m))) \<and>
           (k < length (candidates m) \<longrightarrow>
              totalLinesOf m - linesOf (take k (candidates m)) \<le> maxLines m)"
proof (cases "jsonlFiles m = [] \<or> totalLinesOf m \<le> maxLines m")
  case True
  have c: "cleanup m = (0, ensureDir m)" using True by (simp add: cleanup_unfold [OF d])
  have s: "0 < length (candidates m) \<longrightarrow> totalLinesOf m \<le> maxLines m"
    using True by (auto simp: candidates_def)
  show ?thesis
    by (rule exI [of _ 0]) (use c s in \<open>simp add: ensureDir_same_files linesOf_def\<close>)
next
  case False
  let ?S = "sort_key rf_mtimeMs (jsonlFiles m)"
  let ?act = "map (\<lambda>r. rec_filePath (snd r)) (recorders m)"
  have A: "\<And>e. (path_join [recordingsDir m, rf_name e] \<in> set ?act) = isActive m e"
    by (simp add: isActive_def)
  have dS: "distinct ?S" using distinct_files [OF d] by (simp add: jsonlFiles_def)
  have sub: "set ?S \<subseteq> set (recFiles m)" by (auto simp: jsonlFiles_def)
  from deleteLoop_spec [OF A d dS sub, of "maxLines m" "totalLinesOf m" 0]
  obtain k where k: "k \<le> length (candidates m)"
    and res: "deleteLoop (maxLines m) ?act (map (entryOf (recordingsDir m)) ?S)
          (totalLinesOf m, 0, recFiles m) =
        (totalLinesOf m - linesOf (take k (candidates m)), 0 + k,
         filter (\<lambda>e. e \<notin> set (take k (candidates m))) (recFiles m))"
    and above: "\<forall>j < k. maxLines m < totalLinesOf m - linesOf (take j (candidates m))"
    and stop: "k < length (candidates m) \<longrightarrow>
        totalLinesOf m - linesOf (take k (candidates m)) \<le> maxLines m"
    unfolding candidates_sorted_filter [symmetric] by (elim exE conjE)
  have c: "cleanup m =
      (k, (ensureDir m)\<lparr> recFiles :=
            filter (\<lambda>e. e \<notin> set (take k (candidates m))) (recFiles m) \<rparr>)"
    using False by (simp add: cleanup_unfold [OF d] res)
  show ?thesis by (rule exI [of _ k]) (intro conjI k c above stop)
qed

lemma after_cleanup:
  assumes d: "distinct (map rf_name (recFiles m))" and k: "k \<le> length (candidates m)"
  defines "m' \<equiv> (ensureDir m)\<lparr> recFiles :=
                   filter (\<lambda>e. e \<notin> set (take k (candidates m))) (recFiles m) \<rparr>"
  shows "totalLinesOf m' = totalLinesOf m - linesOf (take k (candidates m))"
    and "k = length (candidates m) \<Longrightarrow> candidates m' = []"
    and "\<forall>e \<in> set (recFiles m). isActive m e \<longrightarrow> e \<in> set (recFiles m')"
proof -
  let ?X = "take k (candidates m)"
  have j: "jsonlFiles m' = filter (\<lambda>e. e \<notin> set ?X) (jsonlFiles m)"
    unfolding m'_def jsonlFiles_def by (simp add: conj_commute)
  have dJ: "distinct (jsonlFiles m)" using distinct_files [OF d] by (simp add: jsonlFiles_def)
  have dX: "distinct ?X" using distinct_candidates [OF d] by simp
  have "set ?X \<subseteq> set (candidates m)" by (rule set_take_subset)
  then have sX: "set ?X \<subseteq> set (jsonlFiles m)" by (auto simp: candidates_def)
  show "totalLinesOf m' = totalLinesOf m - linesOf ?X"
    unfolding totalLinesOf_def j by (rule linesOf_remove [OF dJ dX sX])
  have act: "\<And>e. isActive m' e = isActive m e"
    by (simp add: isActive_def m'_def ensureDir_fields)
  show "candidates m' = []" if "k = length (candidates m)"
  proof -
    have X: "set ?X = set (candidates m)" using that by simp
    have "\<forall>x \<in> set (jsonlFiles m'). isActive m' x"
    proof
      fix x assume "x \<in> set (jsonlFiles m')"
      then have "x \<in> set (jsonlFiles m)" "x \<notin> set (candidates m)" unfolding j X by simp_all
      then show "isActive m' x" unfolding act by (simp add: candidates_def)
    qed
    then have "filter (\<lambda>e. \<not> isActive m' e) (jsonlFiles m') = []"
      unfolding filter_empty_conv by simp
    then show ?thesis unfolding candidates_def by simp
  qed
  show "\<forall>e \<in> set (recFiles m). isActive m e \<longrightarrow> e \<in> set (recFiles m')"
  proof (intro ballI impI)
    fix e assume e: "e \<in> set (recFiles m)" "isActive m e"
    have "e \<notin> set (candidates m)" using e(2) by (simp add: set_candidates)
    then have "e \<notin> set ?X" using \<open>set ?X \<subseteq> set (candidates m)\<close> by blast
    then show "e \<in> set (recFiles m')" using e(1) by (simp add: m'_def)
  qed
qed

text \<open>
  C4, as the code has it. In a directory (no two files of the same name) \<open>cleanup\<close>
  deletes the first \<open>k\<close> of the \<open>.jsonl\<close> files that no open recorder writes to, taken
  oldest modification time first, and returns \<open>k\<close>; every other file stays as it is.
  \<open>k\<close> is the least number of such files whose removal brings the total line count to
  the limit or under it, and all of them when no number does: afterwards the total is at
  or under the limit, or no \<open>.jsonl\<close> file without an open recorder is left. A file an
  open recorder writes to is never deleted, and when the total is at or under the limit
  to begin with, \<open>cleanup\<close> returns 0 and deletes nothing.
\<close>

theorem cleanup_deletes_oldest_inactive_files:
  assumes "distinct (map rf_name (recFiles m))"
  shows "\<exists>k \<le> length (candidates m).
           cleanup m =
             (k, (ensureDir m)\<lparr> recFiles :=
                   filter (\<lambda>e. e \<notin> set (take k (candidates m))) (recFiles m) \<rparr>) \<and>
           (\<forall>j < k. maxLines m < totalLinesOf m - linesOf (take j (candidates m))) \<and>
           (k < length (candidates m) \<longrightarrow>
              totalLinesOf m - linesOf (take k (candidates m)) \<le> maxLines m) \<and>
           totalLinesOf (snd (cleanup m)) = totalLinesOf m - linesOf (take k (candidates m)) \<and>
           (totalLinesOf (snd (cleanup m)) \<le> maxLines m \<or> candidates (snd (cleanup m)) = []) \<and>
           (\<forall>e \<in> set (recFiles m). isActive m e \<longrightarrow> e \<in> set (recFiles (snd (cleanup m)))) \<and>
           (totalLinesOf m \<le> maxLines m \<longrightarrow> cleanup m = (0, ensureDir m)) \<and>
           sorted (map rf_mtimeMs (candidates m)) \<and>
           set (candidates m) =
             {e \<in> set (recFiles m). endsWith (rf_name e) ''.jsonl'' \<and> \<not> isActive m e}"
proof -
  from cleanup_prefix [OF assms]
  obtain k where k: "k \<le> length (candidates m)"
    and c: "cleanup m =
             (k, (ensureDir m)\<lparr> recFiles :=
                   filter (\<lambda>e. e \<notin> set (take k (candidates m))) (recFiles m) \<rparr>)"
    and above: "\<forall>j < k. maxLines m < totalLinesOf m - linesOf (take j (candidates m))"
    and stop: "k < length (candidates m) \<longrightarrow>
              totalLinesOf m - linesOf (take k (candidates m)) \<le> maxLines m"
    by (elim exE conjE)
  note a = after_cleanup [OF assms k]
  have s: "snd (cleanup m) = (ensureDir m)\<lparr> recFiles :=
                   filter (\<lambda>e. e \<notin> set (take k (candidates m))) (recFiles m) \<rparr>"
    unfolding c by simp
  have total: "totalLinesOf (snd (cleanup m)) =
      totalLinesOf m - linesOf (take k (candidates m))"
    unfolding s by (rule a(1))
  have post: "totalLinesOf (snd (cleanup m)) \<le> maxLines m \<or> candidates (snd (cleanup m)) = []"
  proof (cases "k < length (candidates m)")
    case True
    then show ?thesis using stop total by simp
  next
    case False
    then have "k = length (candidates m)" using k by simp
    then show ?thesis unfolding s using a(2) by simp
  qed
  have keep: "\<forall>e \<in> set (recFiles m). isActive m e \<longrightarrow> e \<in> set (recFiles (snd (cleanup m)))"
    unfolding s by (rule a(3))
  have zero: "totalLinesOf m \<le> maxLines m \<longrightarrow> cleanup m = (0, ensureDir m)"
    by (simp add: cleanup_unfold [OF assms])
  show ?thesis
    by (rule exI [of _ k])
       (intro conjI k c above stop total post keep zero sorted_candidates set_candidates)
qed

theorem cleanup_deletes_oldest_inactive_files_witness:
  "distinct (map rf_name (recFiles example_manager)) \<and>
   (\<exists>k \<le> length (candidates example_manager).
      cleanup example_manager =
        (k, (ensureDir example_manager)\<lparr> recFiles :=
              filter (\<lambda>e. e \<notin> set (take k (candidates example_manager)))
                (recFiles example_manager) \<rparr>) \<and>
      totalLinesOf (snd (cleanup example_manager)) =
        totalLinesOf example_manager - linesOf (take k (candidates example_manager))) \<and>
   totalLinesOf example_manager = 33 \<and>
   map rf_name (candidates example_manager) =
     [''old_claude_2025-01-01.jsonl'', ''mid_claude_2025-01-02.jsonl'',
      ''new_claude_2025-01-03.jsonl''] \<and>
   fst (cleanup example_manager) = 2 \<and>
   map rf_name (recFiles (snd (cleanup example_manager))) = [''new_claude_2025-01-03.jsonl'']"
proof -
  have d: "distinct (map rf_name (recFiles example_manager))"
    by code_simp
  from cleanup_deletes_oldest_inactive_files [OF d]
  obtain k where k: "k \<le> length (candidates example_manager)"
    and c: "cleanup example_manager =
        (k, (ensureDir example_manager)\<lparr> recFiles :=
              filter (\<lambda>e. e \<notin> set (take k (candidates example_manager)))
                (recFiles example_manager) \<rparr>)"
    and t: "totalLinesOf (snd (cleanup example_manager)) =
        totalLinesOf example_manager - linesOf (take k (candidates example_manager))"
    by (elim exE conjE)
  have e: "\<exists>k \<le> length (candidates example_manager).
      cleanup example_manager =
        (k, (ensureDir example_manager)\<lparr> recFiles :=
              filter (\<lambda>e. e \<notin> set (take k (candidates example_manager)))
                (recFiles example_manager) \<rparr>) \<and>
      totalLinesOf (snd (cleanup example_manager)) =
        totalLinesOf example_manager - linesOf (take k (candidates example_manager))"
    by (rule exI [of _ k]) (intro conjI k c t)
  have v: "totalLinesOf example_manager = 33"
    "map rf_name (candidates example_manager) =
     [''old_claude_2025-01-01.jsonl'', ''mid_claude_2025-01-02.jsonl'',
      ''new_claude_2025-01-03.jsonl'']"
    "fst (cleanup example_manager) = 2"
    "map rf_name (recFiles (snd (cleanup example_manager))) = [''new_claude_2025-01-03.jsonl'']"
    by code_simp+
  show ?thesis by (intro conjI d e v)
qed

theorem cleanup_total_stays_over_limit_counterexample:
  "maxLines busy_manager < totalLinesOf busy_manager \<and>
   cleanup busy_manager = (0, busy_manager) \<and>
   maxLines busy_manager < totalLinesOf (snd (cleanup busy_manager))"
  by code_simp

section \<open>Properties of the cron scheduler\<close>

lemma executeJob_launch:
  assumes "getJob parse (sch_cron w) jobId = Some job" "mayRun L (sch_launcher w) job"
  shows "sch_launches (executeJob L stringify parse namePrefix now w jobId) =
           sch_launches w @ [launchOptionsFor job]"
    and "sch_injected (executeJob L stringify parse namePrefix now w jobId) =
           sch_injected w @
             [(fst (launch L (sch_launcher w) (launchOptionsFor job)), cronPrompt job)]"
    and "sch_launcher (executeJob L stringify parse namePrefix now w jobId) =
           snd (launch L (sch_launcher w) (launchOptionsFor job))"
  using assms
  by (auto simp: executeJob_def mayRun_def Let_def split: option.splits prod.splits)

lemma updateJob_tracking:
  assumes codec: "\<forall>j. parse (stringify j) = Some j"
    and g: "getJob parse d jobId = Some job"
    and slug: "slugify (job_name job) = jobId" "jobId \<noteq> []"
    and en: "enabled job"
  shows "\<exists>d'. updateJob stringify parse now d jobId (trackingUpdates job now sid c) =
                Inr (Some (afterRun jobId job now sid c), d') \<and>
              getJob parse d' jobId = Some (afterRun jobId job now sid c)"
proof -
  let ?u = "trackingUpdates job now sid c"
  have n: "newNameOf job ?u = job_name job"
    by (simp add: newNameOf_def trackingUpdates_def noUpdates_def Let_def)
  have j: "(spreadUpdates job ?u)\<lparr> job_id := jobId, job_name := job_name job,
             updatedAt := now, createdAt := createdAt job \<rparr> = afterRun jobId job now sid c"
    using en
    by (cases job)
       (auto simp: spreadUpdates_def spread_def trackingUpdates_def noUpdates_def Let_def
          afterRun_def)
  have u: "updateJob stringify parse now d jobId ?u =
      Inr (Some (afterRun jobId job now sid c),
           AList.update (filePath jobId) (stringify (afterRun jobId job now sid c)) d)"
    using slug(2) j by (simp add: updateJob_def g n Let_def slug(1) writeFileSync_def)
  have "getJob parse (AList.update (filePath jobId) (stringify (afterRun jobId job now sid c)) d)
      jobId = Some (afterRun jobId job now sid c)"
    using codec by (simp add: getJob_def readFileSync_def AList.update_conv')
  then show ?thesis using u by blast
qed

lemma executeJob_job:
  assumes codec: "\<forall>j. parse (stringify j) = Some j"
    and g: "getJob parse (sch_cron w) jobId = Some job"
    and slug: "slugify (job_name job) = jobId" "jobId \<noteq> []"
    and run: "mayRun L (sch_launcher w) job"
  shows "getJob parse (sch_cron (executeJob L stringify parse namePrefix now w jobId)) jobId =
         Some (afterRun jobId job now
                 (fst (launch L (sch_launcher w) (launchOptionsFor job)))
                 (hasConnected L (snd (launch L (sch_launcher w) (launchOptionsFor job)))
                    (fst (launch L (sch_launcher w) (launchOptionsFor job)))))"
proof -
  have en: "enabled job" using run by (simp add: mayRun_def)
  obtain sid l' where l: "launch L (sch_launcher w) (launchOptionsFor job) = (sid, l')"
    by (cases "launch L (sch_launcher w) (launchOptionsFor job)")
  from updateJob_tracking [OF codec g slug en, of now sid "hasConnected L l' sid"]
  obtain d' where u: "updateJob stringify parse now (sch_cron w) jobId
        (trackingUpdates job now sid (hasConnected L l' sid)) =
      Inr (Some (afterRun jobId job now sid (hasConnected L l' sid)), d')"
    and g': "getJob parse d' jobId = Some (afterRun jobId job now sid (hasConnected L l' sid))"
    by (elim exE conjE)
  have "sch_cron (executeJob L stringify parse namePrefix now w jobId) = d'"
    using run g l u by (auto simp: executeJob_def mayRun_def Let_def split: option.splits)
  then show ?thesis using g' l by simp
qed

lemma executeJobAt_Nil: "executeJobAt L stringify parse namePrefix jobId [] w = w"
  by (simp add: executeJobAt_def)

lemma executeJobAt_Cons:
  "executeJobAt L stringify parse namePrefix jobId (now # nows) w =
   executeJobAt L stringify parse namePrefix jobId nows
     (executeJob L stringify parse namePrefix now w jobId)"
  by (simp add: executeJobAt_def)

lemma executeJobAt_snoc:
  "executeJobAt L stringify parse namePrefix jobId (nows @ [now]) w =
   executeJob L stringify parse namePrefix now
     (executeJobAt L stringify parse namePrefix jobId nows w) jobId"
  by (simp add: executeJobAt_def)

lemma failed_run:
  assumes codec: "\<forall>j. parse (stringify j) = Some j"
    and never: "neverConnects L"
    and g: "getJob parse (sch_cron w) jobId = Some job"
    and slug: "slugify (job_name job) = jobId" "jobId \<noteq> []"
    and run: "mayRun L (sch_launcher w) job"
  shows "\<exists>j. getJob parse (sch_cron (executeJob L stringify parse namePrefix now w jobId)) jobId =
               Some j \<and>
             slugify (job_name j) = jobId \<and>
             consecutiveFailures j = consecutiveFailures job + 1 \<and>
             enabled j = (consecutiveFailures job + 1 < 5) \<and>
             (enabled j \<longrightarrow>
                mayRun L (sch_launcher (executeJob L stringify parse namePrefix now w jobId)) j)"
proof -
  let ?r = "launch L (sch_launcher w) (launchOptionsFor job)"
  have nc: "\<not> hasConnected L (snd ?r) (fst ?r)" and na: "\<not> isAlive L (snd ?r) (fst ?r)"
    using never unfolding neverConnects_def by blast+
  let ?j = "afterRun jobId job now (fst ?r) False"
  have gj: "getJob parse (sch_cron (executeJob L stringify parse namePrefix now w jobId)) jobId =
      Some ?j"
    using executeJob_job [OF codec g slug run] nc by simp
  have l: "sch_launcher (executeJob L stringify parse namePrefix now w jobId) = snd ?r"
    by (rule executeJob_launch(3) [OF g run])
  have en: "enabled job" using run by (simp add: mayRun_def)
  have 1: "slugify (job_name ?j) = jobId" using slug(1) by (simp add: afterRun_def)
  have 2: "consecutiveFailures ?j = consecutiveFailures job + 1" by (simp add: afterRun_def)
  have 3: "enabled ?j = (consecutiveFailures job + 1 < 5)" using en by (simp add: afterRun_def)
  have 4: "enabled ?j \<longrightarrow>
      mayRun L (sch_launcher (executeJob L stringify parse namePrefix now w jobId)) ?j"
    unfolding l using na by (simp add: mayRun_def afterRun_def)
  show ?thesis by (rule exI [of _ ?j]) (intro conjI gj 1 2 3 4)
qed

lemma failed_runs:
  assumes codec: "\<forall>j. parse (stringify j) = Some j"
    and never: "neverConnects L"
    and ne: "jobId \<noteq> []"
  shows "getJob parse (sch_cron w) jobId = Some job \<Longrightarrow> slugify (job_name job) = jobId \<Longrightarrow>
         mayRun L (sch_launcher w) job \<Longrightarrow>
         consecutiveFailures job + int (length nows) \<le> 4 \<Longrightarrow>
         \<exists>j. getJob parse (sch_cron (executeJobAt L stringify parse namePrefix jobId nows w)) jobId =
               Some j \<and>
             slugify (job_name j) = jobId \<and>
             mayRun L (sch_launcher (executeJobAt L stringify parse namePrefix jobId nows w)) j \<and>
             consecutiveFailures j = consecutiveFailures job + int (length nows)"
proof (induction nows arbitrary: w job)
  case Nil
  then show ?case by (simp add: executeJobAt_Nil)
next
  case (Cons now nows)
  let ?w = "executeJob L stringify parse namePrefix now w jobId"
  from failed_run [OF codec never Cons.prems(1,2) ne Cons.prems(3),
      where namePrefix = namePrefix and now = now]
  obtain j where g: "getJob parse (sch_cron ?w) jobId = Some j"
    and slug: "slugify (job_name j) = jobId"
    and cf: "consecutiveFailures j = consecutiveFailures job + 1"
    and en: "enabled j = (consecutiveFailures job + 1 < 5)"
    and run: "enabled j \<longrightarrow> mayRun L (sch_launcher ?w) j"
    by (elim exE conjE)
  have "enabled j" using en Cons.prems(4) by simp
  then have run': "mayRun L (sch_launcher ?w) j" using run by simp
  have le: "consecutiveFailures j + int (length nows) \<le> 4" using cf Cons.prems(4) by simp
  from Cons.IH [OF g slug run' le]
  show ?case unfolding executeJobAt_Cons cf by (simp add: add.assoc)
qed

lemma failingLauncher_neverConnects: "neverConnects failingLauncher"
  by (simp add: neverConnects_def failingLauncher_def mockLauncher_def failingLaunch_def Let_def
      AList.update_conv')

lemma five_failed_runs:
  assumes codec: "\<forall>j. parse (stringify j) = Some j"
    and never: "neverConnects L"
    and g: "getJob parse (sch_cron w) jobId = Some job"
    and slug: "slugify (job_name job) = jobId" "jobId \<noteq> []"
    and run: "mayRun L (sch_launcher w) job"
    and zero: "consecutiveFailures job = 0"
    and len: "length nows \<le> 5"
  shows "\<exists>j. getJob parse (sch_cron (executeJobAt L stringify parse namePrefix jobId nows w)) jobId =
               Some j \<and>
             consecutiveFailures j = int (length nows) \<and>
             enabled j = (length nows < 5)"
proof (cases "length nows < 5")
  case True
  then have le: "consecutiveFailures job + int (length nows) \<le> 4" using zero by simp
  from failed_runs [OF codec never slug(2) g slug(1) run le, where namePrefix = namePrefix]
  obtain j where
    gj: "getJob parse (sch_cron (executeJobAt L stringify parse namePrefix jobId nows w)) jobId =
      Some j"
    and r: "mayRun L (sch_launcher (executeJobAt L stringify parse namePrefix jobId nows w)) j"
    and cf: "consecutiveFailures j = consecutiveFailures job + int (length nows)"
    by (elim exE conjE)
  have en: "enabled j = (length nows < 5)" using r True by (simp add: mayRun_def)
  have cf': "consecutiveFailures j = int (length nows)" using cf zero by simp
  show ?thesis by (rule exI [of _ j]) (intro conjI gj cf' en)
next
  case False
  then have l5: "length nows = 5" using len by simp
  then have ne: "nows \<noteq> []" by auto
  let ?ns = "butlast nows"
  let ?n = "last nows"
  have split: "nows = ?ns @ [?n]" using ne by simp
  have l4: "length ?ns = 4" using l5 by simp
  let ?w = "executeJobAt L stringify parse namePrefix jobId ?ns w"
  have le: "consecutiveFailures job + int (length ?ns) \<le> 4" using zero l4 by simp
  from failed_runs [OF codec never slug(2) g slug(1) run le, where namePrefix = namePrefix]
  obtain j4 where g4: "getJob parse (sch_cron ?w) jobId = Some j4"
    and s4: "slugify (job_name j4) = jobId"
    and r4: "mayRun L (sch_launcher ?w) j4"
    and cf4: "consecutiveFailures j4 = consecutiveFailures job + int (length ?ns)"
    by (elim exE conjE)
  have c4: "consecutiveFailures j4 = 4" using cf4 zero l4 by simp
  from failed_run [OF codec never g4 s4 slug(2) r4, where namePrefix = namePrefix and now = ?n]
  obtain j where
    gj: "getJob parse (sch_cron (executeJob L stringify parse namePrefix ?n ?w jobId)) jobId =
      Some j"
    and cf: "consecutiveFailures j = consecutiveFailures j4 + 1"
    and en: "enabled j = (consecutiveFailures j4 + 1 < 5)"
    by (elim exE conjE)
  have e: "executeJobAt L stringify parse namePrefix jobId nows w =
      executeJob L stringify parse namePrefix ?n ?w jobId"
    using executeJobAt_snoc [of L stringify parse namePrefix jobId ?ns ?n w] split by simp
  have cf': "consecutiveFailures j = int (length nows)" using cf c4 l5 by simp
  have en': "enabled j = (length nows < 5)" using en c4 l5 by simp
  show ?thesis unfolding e by (rule exI [of _ j]) (intro conjI gj cf' en')
qed

lemma connected_run:
  assumes codec: "\<forall>j. parse (stringify j) = Some j"
    and g: "getJob parse (sch_cron w) jobId = Some job"
    and slug: "slugify (job_name job) = jobId" "jobId \<noteq> []"
    and run: "mayRun L (sch_launcher w) job"
    and con: "hasConnected L (snd (launch L (sch_launcher w) (launchOptionsFor job)))
                (fst (launch L (sch_launcher w) (launchOptionsFor job)))"
  shows "\<exists>j. getJob parse (sch_cron (executeJob L stringify parse namePrefix now w jobId)) jobId =
               Some j \<and>
             consecutiveFailures j = 0 \<and> enabled j"
proof -
  let ?j = "afterRun jobId job now (fst (launch L (sch_launcher w) (launchOptionsFor job))) True"
  have gj: "getJob parse (sch_cron (executeJob L stringify parse namePrefix now w jobId)) jobId =
      Some ?j"
    using executeJob_job [OF codec g slug run] con by simp
  have en: "enabled job" using run by (simp add: mayRun_def)
  have 1: "consecutiveFailures ?j = 0" by (simp add: afterRun_def)
  have 2: "enabled ?j" using en by (simp add: afterRun_def)
  show ?thesis by (rule exI [of _ ?j]) (intro conjI gj 1 2)
qed

text \<open>
  Claim C5. Take a job that \<open>executeJob\<close> may run, stored under the slug of its name, with a
  codec that reads back what it writes. If no launched session ever connects and the job starts
  with \<open>consecutiveFailures = 0\<close>, then after \<open>n \<le> 5\<close> executions in a row the counter is \<open>n\<close> and
  the job is enabled exactly when \<open>n < 5\<close>: still enabled with the counter at 4 after four
  failures, disabled by the fifth. One execution whose session connects leaves the counter at 0
  and the job enabled, whatever the counter was.
\<close>

theorem executeJob_counts_failures:
  assumes codec: "\<forall>j. parse (stringify j) = Some j"
    and g: "getJob parse (sch_cron w) jobId = Some job"
    and slug: "slugify (job_name job) = jobId" "jobId \<noteq> []"
    and run: "mayRun L (sch_launcher w) job"
  shows "(neverConnects L \<and> consecutiveFailures job = 0 \<and> length nows \<le> 5 \<longrightarrow>
            (\<exists>j. getJob parse
                    (sch_cron (executeJobAt L stringify parse namePrefix jobId nows w)) jobId =
                    Some j \<and>
                  consecutiveFailures j = int (length nows) \<and>
                  enabled j = (length nows < 5))) \<and>
         (hasConnected L (snd (launch L (sch_launcher w) (launchOptionsFor job)))
            (fst (launch L (sch_launcher w) (launchOptionsFor job))) \<longrightarrow>
            (\<exists>j. getJob parse
                    (sch_cron (executeJob L stringify parse namePrefix now w jobId)) jobId =
                    Some j \<and>
                  consecutiveFailures j = 0 \<and> enabled j))"
proof (intro conjI impI)
  assume a: "neverConnects L \<and> consecutiveFailures job = 0 \<and> length nows \<le> 5"
  then have never: "neverConnects L" and zero: "consecutiveFailures job = 0"
    and len: "length nows \<le> 5" by simp_all
  show "\<exists>j. getJob parse
               (sch_cron (executeJobAt L stringify parse namePrefix jobId nows w)) jobId =
               Some j \<and>
             consecutiveFailures j = int (length nows) \<and>
             enabled j = (length nows < 5)"
    by (rule five_failed_runs [OF codec never g slug run zero len])
next
  assume con: "hasConnected L (snd (launch L (sch_launcher w) (launchOptionsFor job)))
      (fst (launch L (sch_launcher w) (launchOptionsFor job)))"
  show "\<exists>j. getJob parse
               (sch_cron (executeJob L stringify parse namePrefix now w jobId)) jobId =
               Some j \<and>
             consecutiveFailures j = 0 \<and> enabled j"
    by (rule connected_run [OF codec g slug run con])
qed

theorem executeJob_counts_failures_witness:
  "(\<forall>j::CronJob. Some ((\<lambda>j. j) j) = Some j) \<and>
   getJob Some (sch_cron example_scheduler) ''codex-auto'' = Some (fst example_created) \<and>
   slugify (job_name (fst example_created)) = ''codex-auto'' \<and>
   mayRun failingLauncher (sch_launcher example_scheduler) (fst example_created) \<and>
   neverConnects failingLauncher \<and>
   consecutiveFailures (fst example_created) = 0 \<and>
   map_option (\<lambda>j. (consecutiveFailures j, enabled j))
     (getJob Some
        (sch_cron (executeJobAt failingLauncher (\<lambda>j. j) Some ''Cron'' ''codex-auto''
           [2000, 3000, 4000, 5000, 6000] example_scheduler)) ''codex-auto'') =
     Some (5, False) \<and>
   mayRun mockLauncher (sch_launcher example_scheduler) (fst example_created) \<and>
   hasConnected mockLauncher
     (snd (launch mockLauncher (sch_launcher example_scheduler)
        (launchOptionsFor (fst example_created))))
     (fst (launch mockLauncher (sch_launcher example_scheduler)
        (launchOptionsFor (fst example_created)))) \<and>
   map_option (\<lambda>j. (consecutiveFailures j, enabled j))
     (getJob Some
        (sch_cron (executeJob mockLauncher (\<lambda>j. j) Some ''Cron'' 2000 example_scheduler
           ''codex-auto'')) ''codex-auto'') =
     Some (0, True)"
proof -
  have codec: "\<forall>j::CronJob. Some ((\<lambda>j. j) j) = Some j" by simp
  have g: "getJob Some (sch_cron example_scheduler) ''codex-auto'' = Some (fst example_created)"
    by code_simp
  have s: "slugify (job_name (fst example_created)) = ''codex-auto''" by code_simp
  have ne: "''codex-auto'' \<noteq> []" by simp
  have r1: "mayRun failingLauncher (sch_launcher example_scheduler) (fst example_created)"
    by code_simp
  have r2: "mayRun mockLauncher (sch_launcher example_scheduler) (fst example_created)"
    by code_simp
  have z: "consecutiveFailures (fst example_created) = 0" by code_simp
  have len: "length [2000, 3000, 4000, 5000, 6000 :: int] \<le> 5" by simp
  have con: "hasConnected mockLauncher
     (snd (launch mockLauncher (sch_launcher example_scheduler)
        (launchOptionsFor (fst example_created))))
     (fst (launch mockLauncher (sch_launcher example_scheduler)
        (launchOptionsFor (fst example_created))))"
    by code_simp
  have "\<exists>j. getJob Some
        (sch_cron (executeJobAt failingLauncher (\<lambda>j. j) Some ''Cron'' ''codex-auto''
           [2000, 3000, 4000, 5000, 6000] example_scheduler)) ''codex-auto'' = Some j \<and>
      consecutiveFailures j = int (length [2000, 3000, 4000, 5000, 6000 :: int]) \<and>
      enabled j = (length [2000, 3000, 4000, 5000, 6000 :: int] < 5)"
    by (rule executeJob_counts_failures
          [where parse = Some and stringify = "\<lambda>j. j", OF codec g s ne r1,
            THEN conjunct1, THEN mp])
       (intro conjI failingLauncher_neverConnects z len)
  then have c1: "map_option (\<lambda>j. (consecutiveFailures j, enabled j))
     (getJob Some
        (sch_cron (executeJobAt failingLauncher (\<lambda>j. j) Some ''Cron'' ''codex-auto''
           [2000, 3000, 4000, 5000, 6000] example_scheduler)) ''codex-auto'') =
     Some (5, False)"
    by (elim exE conjE) simp
  have "\<exists>j. getJob Some
        (sch_cron (executeJob mockLauncher (\<lambda>j. j) Some ''Cron'' 2000 example_scheduler
           ''codex-auto'')) ''codex-auto'' = Some j \<and>
      consecutiveFailures j = 0 \<and> enabled j"
    by (rule executeJob_counts_failures
          [where parse = Some and stringify = "\<lambda>j. j" and nows = "[]",
            OF codec g s ne r2, THEN conjunct2, THEN mp])
       (rule con)
  then have c2: "map_option (\<lambda>j. (consecutiveFailures j, enabled j))
     (getJob Some
        (sch_cron (executeJob mockLauncher (\<lambda>j. j) Some ''Cron'' 2000 example_scheduler
           ''codex-auto'')) ''codex-auto'') =
     Some (0, True)"
    by (elim exE conjE) simp
  show ?thesis by (intro conjI codec g s r1 failingLauncher_neverConnects z c1 r2 con c2)
qed

text \<open>
  Claim C6. An execution that launches passes \<open>launchOptionsFor job\<close> to the launcher. For a Codex
  job \<open>codexSandbox\<close> is \<open>danger-full-access\<close> when the permission mode is \<open>bypassPermissions\<close> and
  \<open>workspace-write\<close> for every other mode, and \<open>codexInternetAccess\<close> is true unless the job sets
  it to false; for a Claude job neither field is present.
\<close>

theorem executeJob_launch_options:
  assumes g: "getJob parse (sch_cron w) jobId = Some job"
    and run: "mayRun L (sch_launcher w) job"
  shows "sch_launches (executeJob L stringify parse namePrefix now w jobId) =
           sch_launches w @ [launchOptionsFor job] \<and>
         (backendType job = codex \<longrightarrow>
            lo_codexSandbox (launchOptionsFor job) =
              Some (if permissionMode job = ''bypassPermissions''
                    then ''danger-full-access'' else ''workspace-write'') \<and>
            lo_codexInternetAccess (launchOptionsFor job) =
              Some (codexInternetAccess job \<noteq> Some False)) \<and>
         (backendType job = claude \<longrightarrow>
            lo_codexSandbox (launchOptionsFor job) = None \<and>
            lo_codexInternetAccess (launchOptionsFor job) = None)"
proof (intro conjI impI)
  show "sch_launches (executeJob L stringify parse namePrefix now w jobId) =
      sch_launches w @ [launchOptionsFor job]"
    by (rule executeJob_launch(1) [OF g run])
qed (simp_all add: launchOptionsFor_def)

theorem executeJob_launch_options_witness:
  "getJob Some (sch_cron example_scheduler) ''codex-auto'' = Some (fst example_created) \<and>
   mayRun mockLauncher (sch_launcher example_scheduler) (fst example_created) \<and>
   backendType (fst example_created) = codex \<and>
   map (\<lambda>opts. (lo_codexSandbox opts, lo_codexInternetAccess opts))
     (sch_launches (executeJob mockLauncher (\<lambda>j. j) Some ''Cron'' 2000 example_scheduler
        ''codex-auto'')) =
     [(Some ''danger-full-access'', Some True)]"
proof -
  have g: "getJob Some (sch_cron example_scheduler) ''codex-auto'' = Some (fst example_created)"
    by code_simp
  have r: "mayRun mockLauncher (sch_launcher example_scheduler) (fst example_created)"
    by code_simp
  have b: "backendType (fst example_created) = codex" by code_simp
  have p: "permissionMode (fst example_created) = ''bypassPermissions''" by code_simp
  have i: "codexInternetAccess (fst example_created) = None" by code_simp
  have e: "sch_launches example_scheduler = []" by code_simp
  note t = executeJob_launch_options [OF g r, of "\<lambda>j. j" "''Cron''" 2000]
  have l: "sch_launches (executeJob mockLauncher (\<lambda>j. j) Some ''Cron'' 2000 example_scheduler
        ''codex-auto'') = [launchOptionsFor (fst example_created)]"
    using t [THEN conjunct1] e by simp
  have o: "lo_codexSandbox (launchOptionsFor (fst example_created)) =
      Some ''danger-full-access'' \<and>
    lo_codexInternetAccess (launchOptionsFor (fst example_created)) = Some True"
    using t [THEN conjunct2, THEN conjunct1, THEN mp, OF b] p i by simp
  have m: "map (\<lambda>opts. (lo_codexSandbox opts, lo_codexInternetAccess opts))
     (sch_launches (executeJob mockLauncher (\<lambda>j. j) Some ''Cron'' 2000 example_scheduler
        ''codex-auto'')) =
     [(Some ''danger-full-access'', Some True)]"
    unfolding l using o by simp
  show ?thesis by (intro conjI g r b m)
qed

text \<open>
  Claim C7. The prompt injected into the launched session is \<open>[cron:<id> <name>]\<close>, two newlines,
  and the prompt of the job, and nothing else.
\<close>

theorem executeJob_injects_tagged_prompt:
  assumes g: "getJob parse (sch_cron w) jobId = Some job"
    and run: "mayRun L (sch_launcher w) job"
  shows "sch_injected (executeJob L stringify parse namePrefix now w jobId) =
           sch_injected w @
             [(fst (launch L (sch_launcher w) (launchOptionsFor job)),
               ''[cron:'' @ job_id job @ '' '' @ job_name job @ '']'' @ [CHR 0x0A, CHR 0x0A] @
                 prompt job)]"
  using executeJob_launch(2) [OF g run, of stringify namePrefix now]
  by (simp add: cronPrompt_def)

theorem executeJob_injects_tagged_prompt_witness:
  "getJob Some (sch_cron example_scheduler) ''codex-auto'' = Some (fst example_created) \<and>
   mayRun mockLauncher (sch_launcher example_scheduler) (fst example_created) \<and>
   sch_injected (executeJob mockLauncher (\<lambda>j. j) Some ''Cron'' 2000 example_scheduler
      ''codex-auto'') =
     [(''mock-session-1'', ''[cron:codex-auto Codex Auto]'' @ [CHR 0x0A, CHR 0x0A] @ ''Check PRs'')]"
proof -
  have g: "getJob Some (sch_cron example_scheduler) ''codex-auto'' = Some (fst example_created)"
    by code_simp
  have r: "mayRun mockLauncher (sch_launcher example_scheduler) (fst example_created)"
    by code_simp
  have v: "sch_injected example_scheduler @
      [(fst (launch mockLauncher (sch_launcher example_scheduler)
              (launchOptionsFor (fst example_created))),
        ''[cron:'' @ job_id (fst example_created) @ '' '' @ job_name (fst example_created) @
          '']'' @ [CHR 0x0A, CHR 0x0A] @ prompt (fst example_created))] =
     [(''mock-session-1'', ''[cron:codex-auto Codex Auto]'' @ [CHR 0x0A, CHR 0x0A] @ ''Check PRs'')]"
    by code_simp
  have i: "sch_injected (executeJob mockLauncher (\<lambda>j. j) Some ''Cron'' 2000 example_scheduler
      ''codex-auto'') =
     [(''mock-session-1'', ''[cron:codex-auto Codex Auto]'' @ [CHR 0x0A, CHR 0x0A] @ ''Check PRs'')]"
    by (rule trans [OF executeJob_injects_tagged_prompt [OF g r] v])
  show ?thesis by (intro conjI g r i)
qed

text \<open>
  Claim C8. When \<open>lastSessionId\<close> of the job names a session that the launcher reports alive,
  \<open>executeJob\<close> returns the state it was given: no launch, no injected prompt, and the stored
  job (with \<open>consecutiveFailures\<close> and \<open>totalRuns\<close>) as it was.
\<close>

theorem executeJob_skips_while_previous_alive:
  assumes g: "getJob parse (sch_cron w) jobId = Some job"
    and prev: "lastSessionId job = Some previous"
    and alive: "isAlive L (sch_launcher w) previous"
  shows "executeJob L stringify parse namePrefix now w jobId = w"
  using g prev alive by (simp add: executeJob_def)

theorem executeJob_skips_while_previous_alive_witness:
  "getJob Some
     (sch_cron (executeJob mockLauncher (\<lambda>j. j) Some ''Cron'' 2000 example_scheduler
        ''codex-auto'')) ''codex-auto'' =
     Some (the (getJob Some
       (sch_cron (executeJob mockLauncher (\<lambda>j. j) Some ''Cron'' 2000 example_scheduler
          ''codex-auto'')) ''codex-auto'')) \<and>
   lastSessionId (the (getJob Some
       (sch_cron (executeJob mockLauncher (\<lambda>j. j) Some ''Cron'' 2000 example_scheduler
          ''codex-auto'')) ''codex-auto'')) = Some ''mock-session-1'' \<and>
   isAlive mockLauncher
     (sch_launcher (executeJob mockLauncher (\<lambda>j. j) Some ''Cron'' 2000 example_scheduler
        ''codex-auto'')) ''mock-session-1'' \<and>
   executeJob mockLauncher (\<lambda>j. j) Some ''Cron'' 3000
     (executeJob mockLauncher (\<lambda>j. j) Some ''Cron'' 2000 example_scheduler ''codex-auto'')
     ''codex-auto'' =
   executeJob mockLauncher (\<lambda>j. j) Some ''Cron'' 2000 example_scheduler ''codex-auto'' \<and>
   length (sch_launches (executeJob mockLauncher (\<lambda>j. j) Some ''Cron'' 3000
     (executeJob mockLauncher (\<lambda>j. j) Some ''Cron'' 2000 example_scheduler ''codex-auto'')
     ''codex-auto'')) = 1"
proof -
  let ?w = "executeJob mockLauncher (\<lambda>j. j) Some ''Cron'' 2000 example_scheduler ''codex-auto''"
  let ?job = "the (getJob Some (sch_cron ?w) ''codex-auto'')"
  have g: "getJob Some (sch_cron ?w) ''codex-auto'' = Some ?job" by code_simp
  have p: "lastSessionId ?job = Some ''mock-session-1''" by code_simp
  have a: "isAlive mockLauncher (sch_launcher ?w) ''mock-session-1''" by code_simp
  have n: "length (sch_launches ?w) = 1" by code_simp
  have e: "executeJob mockLauncher (\<lambda>j. j) Some ''Cron'' 3000 ?w ''codex-auto'' = ?w"
    by (rule executeJob_skips_while_previous_alive [OF g p a])
  have n': "length (sch_launches (executeJob mockLauncher (\<lambda>j. j) Some ''Cron'' 3000 ?w
      ''codex-auto'')) = 1"
    unfolding e by (rule n)
  show ?thesis by (intro conjI g p a e n')
qed


end
